theory Spec2Isabelle
  imports Main "HOL-Library.Word" "HOL-Library.Multiset"
begin

unbundle bit_operations_syntax

section \<open>The message bus (MicroBitMessageBus.cpp)\<close>

subsection \<open>Data model\<close>

text \<open>
  A listener node carries the fields set by the constructor \<^verbatim>\<open>MicroBitListener(id, value, handler)\<close>.
  The source compares \<^verbatim>\<open>id\<close> and \<^verbatim>\<open>value\<close> as C \<^verbatim>\<open>int\<close>s and never computes with them, so
  they are integers here. A handler is the address of a \<^verbatim>\<open>void (*)(void)\<close> function.
  The \<^verbatim>\<open>next\<close> field is the list structure: a chain of nodes is the list of the nodes reached
  by following \<^verbatim>\<open>next\<close> up to \<^verbatim>\<open>NULL\<close>, and a pointer to a node is the chain that starts at
  that node (\<open>[]\<close> for \<^verbatim>\<open>NULL\<close>).
\<close>

type_synonym handler = nat

record MicroBitListener =
  listener_id :: int
  listener_value :: int
  listener_cb :: handler

record MicroBitEvent =
  evt_source :: int
  evt_value :: int

text \<open>
  The bus: the head of the chain and the sequence number. The sequence number is a machine
  integer of 32 bits, in the bus and in a cache entry: \<^verbatim>\<open>this->seq++\<close> at the largest value
  wraps around. Its value as a C \<^verbatim>\<open>int\<close> is \<open>sint\<close> of the word.
\<close>

record MicroBitMessageBus =
  listeners :: "MicroBitListener list"
  seq :: "32 word"

record MicroBitMessageBusCache =
  cache_ptr :: "MicroBitListener list"
  cache_seq :: "32 word"

text \<open>
  The two sentinels are macros of the same missing header. Every operation takes them as a
  parameter, so nothing below depends on the numbers chosen for them.
\<close>

record bus_consts =
  MICROBIT_BUS_ID_ANY :: int
  MICROBIT_BUS_VALUE_ANY :: int

definition MicroBitListener_new :: "int \<Rightarrow> int \<Rightarrow> handler \<Rightarrow> MicroBitListener" where
  "MicroBitListener_new i v h = \<lparr>listener_id = i, listener_value = v, listener_cb = h\<rparr>"

text \<open>The constructor \<^verbatim>\<open>MicroBitMessageBus()\<close>: no listeners, sequence number 0.\<close>

definition MicroBitMessageBus_new :: MicroBitMessageBus where
  "MicroBitMessageBus_new = \<lparr>listeners = [], seq = 0\<rparr>"

subsection \<open>send\<close>

text \<open>
  First loop of \<^verbatim>\<open>send\<close> (no valid cache):
  \<^verbatim>\<open>l = listeners; while (l != NULL && l->id != evt->source) l = l->next;\<close>
\<close>

fun find_start :: "int \<Rightarrow> MicroBitListener list \<Rightarrow> MicroBitListener list" where
  "find_start src [] = []"
| "find_start src (l # ls) = (if listener_id l \<noteq> src then find_start src ls else l # ls)"

text \<open>
  Second loop: \<^verbatim>\<open>while (l != NULL && l->id == evt->source)\<close>, calling \<^verbatim>\<open>create_fiber(l->cb)\<close>
  when \<^verbatim>\<open>l->value == MICROBIT_BUS_VALUE_ANY || l->value == evt->value\<close>. The result lists, in
  order, the nodes whose handler is handed to \<^verbatim>\<open>create_fiber\<close>.
\<close>

fun notify_source :: "bus_consts \<Rightarrow> MicroBitEvent \<Rightarrow> MicroBitListener list \<Rightarrow> MicroBitListener list" where
  "notify_source K evt [] = []"
| "notify_source K evt (l # ls) =
     (if listener_id l = evt_source evt
      then (if listener_value l = MICROBIT_BUS_VALUE_ANY K \<or> listener_value l = evt_value evt
            then l # notify_source K evt ls
            else notify_source K evt ls)
      else [])"

text \<open>
  Third loop, from the head again: \<^verbatim>\<open>while (l != NULL && l->id == MICROBIT_BUS_ID_ANY)\<close>, with
  an unconditional \<^verbatim>\<open>create_fiber(l->cb)\<close> in its body.
\<close>

fun notify_any :: "bus_consts \<Rightarrow> MicroBitListener list \<Rightarrow> MicroBitListener list" where
  "notify_any K [] = []"
| "notify_any K (l # ls) =
     (if listener_id l = MICROBIT_BUS_ID_ANY K then l # notify_any K ls else [])"

text \<open>The start of the sublist: the cached pointer when the cache is valid, the scan otherwise.\<close>

definition send_start ::
  "MicroBitMessageBus \<Rightarrow> MicroBitEvent \<Rightarrow> MicroBitMessageBusCache option \<Rightarrow> MicroBitListener list" where
  "send_start bus evt c =
     (case c of
        Some ce \<Rightarrow> if cache_seq ce = seq bus then cache_ptr ce
                   else find_start (evt_source evt) (listeners bus)
      | None \<Rightarrow> find_start (evt_source evt) (listeners bus))"

text \<open>The nodes notified by one \<^verbatim>\<open>send\<close>, in the order of the calls of \<^verbatim>\<open>create_fiber\<close>.\<close>

definition send_notified ::
  "bus_consts \<Rightarrow> MicroBitMessageBus \<Rightarrow> MicroBitEvent \<Rightarrow> MicroBitMessageBusCache option
     \<Rightarrow> MicroBitListener list" where
  "send_notified K bus evt c =
     notify_source K evt (send_start bus evt c) @ notify_any K (listeners bus)"

text \<open>
  \<^verbatim>\<open>send(evt, c)\<close>: the handlers given to \<^verbatim>\<open>create_fiber\<close>, in order, and the cache entry as
  the call leaves it (\<open>None\<close> is the \<^verbatim>\<open>NULL\<close> cache). The bus itself is not written.
\<close>

definition send ::
  "bus_consts \<Rightarrow> MicroBitMessageBus \<Rightarrow> MicroBitEvent \<Rightarrow> MicroBitMessageBusCache option
     \<Rightarrow> handler list \<times> MicroBitMessageBusCache option" where
  "send K bus evt c =
     (let start = send_start bus evt c;
          fibers = map listener_cb (send_notified K bus evt c)
      in (fibers,
          case c of
            None \<Rightarrow> None
          | Some ce \<Rightarrow>
              if cache_seq ce \<noteq> seq bus
              then Some (ce\<lparr>cache_ptr := start, cache_seq := seq bus\<rparr>)
              else Some ce))"

subsection \<open>listen\<close>

text \<open>
  First loop of \<^verbatim>\<open>listen\<close>: walk while \<^verbatim>\<open>l->id <= id\<close> and return early on a node with the
  same handler whose id is \<^verbatim>\<open>id\<close> or the any-id sentinel and whose value is \<^verbatim>\<open>value\<close> or the
  any-value sentinel.
\<close>

fun already_captured :: "bus_consts \<Rightarrow> int \<Rightarrow> int \<Rightarrow> handler \<Rightarrow> MicroBitListener list \<Rightarrow> bool" where
  "already_captured K i v h [] = False"
| "already_captured K i v h (l # ls) =
     (if listener_id l \<le> i
      then (if listener_cb l = h
               \<and> (listener_id l = i \<or> listener_id l = MICROBIT_BUS_ID_ANY K)
               \<and> (listener_value l = v \<or> listener_value l = MICROBIT_BUS_VALUE_ANY K)
            then True
            else already_captured K i v h ls)
      else False)"

text \<open>
  Second loop: \<^verbatim>\<open>while (l != NULL && l->id <= id && l->value <= value) { p = l; l = l->next; }\<close>.
  The result is the chain of nodes walked past (its last node is \<^verbatim>\<open>p\<close>; it is empty when
  \<^verbatim>\<open>p == NULL\<close>) and the chain \<^verbatim>\<open>l\<close> where the walk stopped.
\<close>

fun find_pos :: "int \<Rightarrow> int \<Rightarrow> MicroBitListener list
    \<Rightarrow> MicroBitListener list \<times> MicroBitListener list" where
  "find_pos i v [] = ([], [])"
| "find_pos i v (l # ls) =
     (if listener_id l \<le> i \<and> listener_value l \<le> v
      then (case find_pos i v ls of (walked, rest) \<Rightarrow> (l # walked, rest))
      else ([], l # ls))"

text \<open>
  Linking the new node. With \<^verbatim>\<open>p == NULL\<close> the source only assigns \<^verbatim>\<open>listeners = newListener\<close>;
  the new node keeps the \<^verbatim>\<open>next = NULL\<close> of its constructor, so the head then starts a chain
  of one node. Otherwise \<^verbatim>\<open>newListener->next = p->next; p->next = newListener\<close>.
\<close>

definition link_listener :: "MicroBitListener \<Rightarrow> MicroBitListener list \<times> MicroBitListener list
    \<Rightarrow> MicroBitListener list" where
  "link_listener newListener pl =
     (case pl of (walked, rest) \<Rightarrow>
        if walked = [] then [newListener] else walked @ newListener # rest)"

definition listen ::
  "bus_consts \<Rightarrow> MicroBitMessageBus \<Rightarrow> int \<Rightarrow> int \<Rightarrow> handler \<Rightarrow> MicroBitMessageBus" where
  "listen K bus i v h =
     (if already_captured K i v h (listeners bus) then bus
      else bus\<lparr>listeners := link_listener (MicroBitListener_new i v h) (find_pos i v (listeners bus)),
               seq := seq bus + 1\<rparr>)"

text \<open>A sequence of \<^verbatim>\<open>listen\<close> calls, each given as (id, value, handler), first call first.\<close>

fun listen_all ::
  "bus_consts \<Rightarrow> MicroBitMessageBus \<Rightarrow> (int \<times> int \<times> handler) list \<Rightarrow> MicroBitMessageBus" where
  "listen_all K bus [] = bus"
| "listen_all K bus ((i, v, h) # calls) = listen_all K (listen K bus i v h) calls"



text \<open>The order the registry is meant to have: ascending id, ties ascending by value.\<close>

definition listener_le :: "MicroBitListener \<Rightarrow> MicroBitListener \<Rightarrow> bool" where
  "listener_le a b \<longleftrightarrow>
     listener_id a < listener_id b
     \<or> (listener_id a = listener_id b \<and> listener_value a \<le> listener_value b)"

definition registry_sorted :: "MicroBitListener list \<Rightarrow> bool" where
  "registry_sorted ls = sorted_wrt listener_le ls"

section \<open>The context switch (CortexContextSwitch.s)\<close>

subsection \<open>Machine state and instructions\<close>

text \<open>
  The two routines use the registers R0 to R12, the stack pointer and the link register.
  The machine state is the register file, the memory and the Z flag (the only flag that
  the routines read, in \<^verbatim>\<open>BNE\<close>). Memory is read and written one 32-bit word at a time;
  a cell is named by the address of the word.
\<close>

datatype reg = R0 | R1 | R2 | R3 | R4 | R5 | R6 | R7 | R8 | R9 | R10 | R11 | R12 | SP | LR

record cpu =
  regs :: "reg \<Rightarrow> 32 word"
  mem :: "32 word \<Rightarrow> 32 word"
  zflag :: bool

text \<open>A word access is at an address whose two low bits are clear; any other faults.\<close>

definition aligned :: "32 word \<Rightarrow> bool" where
  "aligned a \<longleftrightarrow> a AND 3 = 0"

text \<open>
  The instructions that occur in the file, with the operands they occur with:
  \<^verbatim>\<open>STR Rt, [Rn, #off]\<close>, \<^verbatim>\<open>LDR Rt, [Rn, #off]\<close>, \<^verbatim>\<open>MOV Rd, Rm\<close>, \<^verbatim>\<open>MOVS Rd, #imm\<close>,
  \<^verbatim>\<open>LSLS Rd, #n\<close>, \<^verbatim>\<open>ORRS Rd, Rm\<close>, \<^verbatim>\<open>SUBS Rd, #imm\<close> and \<^verbatim>\<open>CMP Rn, Rm\<close>.
\<close>

datatype instr =
    Str reg reg "32 word"
  | Ldr reg reg "32 word"
  | Mov reg reg
  | Movs reg "32 word"
  | Lsls reg nat
  | Orrs reg reg
  | Subs reg "32 word"
  | Cmp reg reg

text \<open>One instruction; \<open>None\<close> is the fault of an unaligned access.\<close>

fun step :: "instr \<Rightarrow> cpu \<Rightarrow> cpu option" where
  "step (Str rt rn off) s =
     (let a = regs s rn + off
      in if aligned a then Some (s\<lparr>mem := (mem s)(a := regs s rt)\<rparr>) else None)"
| "step (Ldr rt rn off) s =
     (let a = regs s rn + off
      in if aligned a then Some (s\<lparr>regs := (regs s)(rt := mem s a)\<rparr>) else None)"
| "step (Mov rd rm) s = Some (s\<lparr>regs := (regs s)(rd := regs s rm)\<rparr>)"
| "step (Movs rd imm) s = Some (s\<lparr>regs := (regs s)(rd := imm), zflag := (imm = 0)\<rparr>)"
| "step (Lsls rd n) s =
     (let v = push_bit n (regs s rd) in Some (s\<lparr>regs := (regs s)(rd := v), zflag := (v = 0)\<rparr>))"
| "step (Orrs rd rm) s =
     (let v = regs s rd OR regs s rm in Some (s\<lparr>regs := (regs s)(rd := v), zflag := (v = 0)\<rparr>))"
| "step (Subs rd imm) s =
     (let v = regs s rd - imm in Some (s\<lparr>regs := (regs s)(rd := v), zflag := (v = 0)\<rparr>))"
| "step (Cmp rn rm) s = Some (s\<lparr>zflag := (regs s rn = regs s rm)\<rparr>)"

text \<open>A straight-line block.\<close>

fun exec :: "instr list \<Rightarrow> cpu \<Rightarrow> cpu option" where
  "exec [] s = Some s"
| "exec (i # is) s = Option.bind (step i s) (exec is)"

text \<open>
  A loop of the shape \<^verbatim>\<open>label: body; BNE label\<close>: the body runs once before the first
  test, and again as long as it ends with the Z flag clear. A loop that never ends has the
  value \<open>None\<close>.
\<close>

partial_function (option) loop_bne :: "instr list \<Rightarrow> cpu \<Rightarrow> cpu option" where
  "loop_bne body s =
     Option.bind (exec body s) (\<lambda>s'. if zflag s' then Some s' else loop_bne body s')"

subsection \<open>The two routines\<close>

text \<open>
  Both routines open with the same 22 instructions, which write R0 to R12, the stack
  pointer and the link register into the record that R0 points to, at the offsets 0 to 56.
\<close>

definition store_tcb :: "instr list" where
  "store_tcb =
     [Str R0 R0 0, Str R1 R0 4, Str R2 R0 8, Str R3 R0 12,
      Str R4 R0 16, Str R5 R0 20, Str R6 R0 24, Str R7 R0 28,
      Mov R4 R8, Str R4 R0 32,
      Mov R4 R9, Str R4 R0 36,
      Mov R4 R10, Str R4 R0 40,
      Mov R4 R11, Str R4 R0 44,
      Mov R4 R12, Str R4 R0 48,
      Mov R6 SP, Str R6 R0 52,
      Mov R4 LR, Str R4 R0 56]"

text \<open>
  \<^verbatim>\<open>swap_context\<close> up to the end of the loop \<^verbatim>\<open>store_stack\<close>: the outgoing side. R0 is the
  record of the fiber scheduled out, R2 the base of its stack buffer. The top of the system
  stack is built in R7; the loop copies downwards from there until R4 equals the stack
  pointer held in R6.
\<close>

definition swap_out :: "cpu \<Rightarrow> cpu option" where
  "swap_out s =
     Option.bind
       (exec (store_tcb @ [Movs R7 0x20, Lsls R7 24, Movs R4 0x40, Lsls R4 8, Orrs R7 R4, Mov R4 R7]) s)
       (loop_bne [Subs R4 4, Subs R2 4, Ldr R5 R4 0, Str R5 R2 0, Cmp R4 R6])"

text \<open>
  The rest of \<^verbatim>\<open>swap_context\<close>, from "Now page in the new context" to \<^verbatim>\<open>BX LR\<close>: the incoming
  side. R1 is the record of the fiber scheduled in, R3 the base of its stack buffer. The
  return is to the address in the link register of the state that results.
\<close>

definition swap_in :: "cpu \<Rightarrow> cpu option" where
  "swap_in s =
     Option.bind
       (Option.bind
          (exec [Ldr R4 R1 56, Mov LR R4, Ldr R6 R1 52, Mov SP R6, Mov R4 R7] s)
          (loop_bne [Subs R4 4, Subs R3 4, Ldr R5 R3 0, Str R5 R4 0, Cmp R4 R6]))
       (exec [Ldr R4 R1 48, Mov R12 R4,
              Ldr R4 R1 44, Mov R11 R4,
              Ldr R4 R1 40, Mov R10 R4,
              Ldr R4 R1 36, Mov R9 R4,
              Ldr R4 R1 32, Mov R8 R4,
              Ldr R7 R1 28, Ldr R6 R1 24, Ldr R5 R1 20, Ldr R4 R1 16,
              Ldr R3 R1 12, Ldr R2 R1 8, Ldr R0 R1 0, Ldr R1 R1 4])"

definition swap_context :: "cpu \<Rightarrow> cpu option" where
  "swap_context s = Option.bind (swap_out s) swap_in"

text \<open>
  \<^verbatim>\<open>save_context\<close>: R0 is the record, R1 the base of the stack buffer. The top of the stack is
  built in R5, the loop \<^verbatim>\<open>store_stack1\<close> copies through R1, and R7 to R4 are loaded back
  from the record before \<^verbatim>\<open>BX LR\<close>.
\<close>

definition save_context :: "cpu \<Rightarrow> cpu option" where
  "save_context s =
     Option.bind
       (Option.bind
          (exec (store_tcb @ [Movs R5 0x20, Lsls R5 24, Movs R4 0x40, Lsls R4 8, Orrs R5 R4, Mov R4 R5]) s)
          (loop_bne [Subs R4 4, Subs R1 4, Ldr R5 R4 0, Str R5 R1 0, Cmp R4 R6]))
       (exec [Ldr R7 R0 28, Ldr R6 R0 24, Ldr R5 R0 20, Ldr R4 R0 16])"

subsection \<open>Layout\<close>

text \<open>The top of the system stack that both routines build: \<open>0x20 << 24 | 0x40 << 8\<close>.\<close>

definition stack_top :: "32 word" where
  "stack_top = 0x20004000"

text \<open>The offset of each register in the record, as the store instructions have it.\<close>

fun tcb_off :: "reg \<Rightarrow> 32 word" where
  "tcb_off R0 = 0" | "tcb_off R1 = 4" | "tcb_off R2 = 8" | "tcb_off R3 = 12"
| "tcb_off R4 = 16" | "tcb_off R5 = 20" | "tcb_off R6 = 24" | "tcb_off R7 = 28"
| "tcb_off R8 = 32" | "tcb_off R9 = 36" | "tcb_off R10 = 40" | "tcb_off R11 = 44"
| "tcb_off R12 = 48" | "tcb_off SP = 52" | "tcb_off LR = 56"

definition all_regs :: "reg list" where
  "all_regs = [R0, R1, R2, R3, R4, R5, R6, R7, R8, R9, R10, R11, R12, SP, LR]"

text \<open>The 15 cells of the record at address \<open>a\<close>.\<close>

definition tcb_addrs :: "32 word \<Rightarrow> 32 word list" where
  "tcb_addrs a = map (\<lambda>r. a + tcb_off r) all_regs"

text \<open>
  The \<open>n\<close> cells below \<open>p\<close>, highest first: with \<open>p\<close> the top of the stack this is the live
  stack of depth \<open>n\<close> words, with \<open>p\<close> the base of a buffer it is the part of the buffer
  that a stack of that depth is copied to.
\<close>

primrec slice_addrs :: "32 word \<Rightarrow> nat \<Rightarrow> 32 word list" where
  "slice_addrs p 0 = []"
| "slice_addrs p (Suc n) = (p - 4) # slice_addrs (p - 4) n"

text \<open>The cells that hold the saved context of the outgoing fiber: its record and its buffer.\<close>

definition saved_area :: "cpu \<Rightarrow> nat \<Rightarrow> 32 word set" where
  "saved_area s n = set (tcb_addrs (regs s R0)) \<union> set (slice_addrs (regs s R2) n)"

text \<open>
  The state at a call of \<^verbatim>\<open>swap_context\<close>, seen from the outgoing fiber: record and buffer
  are word aligned, the live stack is \<open>n\<close> words deep, and record, buffer and live stack
  are pairwise apart.
\<close>

definition switch_layout :: "cpu \<Rightarrow> nat \<Rightarrow> bool" where
  "switch_layout s n \<longleftrightarrow>
     aligned (regs s R0) \<and> aligned (regs s R2)
     \<and> regs s SP = stack_top - 4 * of_nat n \<and> n < 2 ^ 30
     \<and> set (tcb_addrs (regs s R0)) \<inter> set (slice_addrs (regs s R2) n) = {}
     \<and> set (tcb_addrs (regs s R0)) \<inter> set (slice_addrs stack_top n) = {}
     \<and> set (slice_addrs (regs s R2) n) \<inter> set (slice_addrs stack_top n) = {}"

text \<open>
  The incoming fiber of that call: its record and buffer are aligned, the record holds a
  stack pointer \<open>nb\<close> words below the top (at least one), and neither that cell nor the
  stack it is given back lie in the saved area of the outgoing fiber.
\<close>

definition incoming_ready :: "cpu \<Rightarrow> nat \<Rightarrow> nat \<Rightarrow> bool" where
  "incoming_ready s n nb \<longleftrightarrow>
     aligned (regs s R1) \<and> aligned (regs s R3)
     \<and> mem s (regs s R1 + 52) = stack_top - 4 * of_nat nb \<and> 0 < nb \<and> nb < 2 ^ 30
     \<and> regs s R1 + 52 \<notin> saved_area s n
     \<and> set (slice_addrs stack_top nb) \<inter> saved_area s n = {}"

text \<open>
  A later call that switches back: \<open>s1\<close> is the state the first call returned, \<open>s2\<close> the
  state at the later call. What ran in between left the saved area of the first call as it
  was; R1 and R3 now name the record and the buffer of the fiber switched out first; the
  fiber that is now outgoing has its own layout, \<open>m\<close> words deep (at least one), apart from
  that saved area.
\<close>

definition switched_back :: "cpu \<Rightarrow> nat \<Rightarrow> cpu \<Rightarrow> cpu \<Rightarrow> nat \<Rightarrow> bool" where
  "switched_back s n s1 s2 m \<longleftrightarrow>
     (\<forall>x \<in> saved_area s n. mem s2 x = mem s1 x)
     \<and> regs s2 R1 = regs s R0 \<and> regs s2 R3 = regs s R2
     \<and> switch_layout s2 m \<and> 0 < m
     \<and> saved_area s2 m \<inter> saved_area s n = {}"

text \<open>The state at a call of \<^verbatim>\<open>save_context\<close>: as for the switch, with the buffer in R1.\<close>

definition snapshot_layout :: "cpu \<Rightarrow> nat \<Rightarrow> bool" where
  "snapshot_layout s n \<longleftrightarrow>
     aligned (regs s R0) \<and> aligned (regs s R1)
     \<and> regs s SP = stack_top - 4 * of_nat n \<and> n < 2 ^ 30
     \<and> set (tcb_addrs (regs s R0)) \<inter> set (slice_addrs (regs s R1) n) = {}
     \<and> set (tcb_addrs (regs s R0)) \<inter> set (slice_addrs stack_top n) = {}
     \<and> set (slice_addrs (regs s R1) n) \<inter> set (slice_addrs stack_top n) = {}"

subsection \<open>What the loops and the stores compute\<close>

text \<open>
  \<open>n\<close> rounds of a copy loop on the memory: each round steps both pointers down by one
  word and copies the word at the source to the destination.
\<close>

primrec copy_down ::
  "nat \<Rightarrow> 32 word \<Rightarrow> 32 word \<Rightarrow> (32 word \<Rightarrow> 32 word) \<Rightarrow> 32 word \<Rightarrow> 32 word" where
  "copy_down 0 src dst m = m"
| "copy_down (Suc n) src dst m = copy_down n (src - 4) (dst - 4) (m(dst - 4 := m (src - 4)))"

text \<open>The memory after the register file \<open>rf\<close> is written to the record at \<open>a\<close>.\<close>

definition tcb_write ::
  "32 word \<Rightarrow> (reg \<Rightarrow> 32 word) \<Rightarrow> (32 word \<Rightarrow> 32 word) \<Rightarrow> 32 word \<Rightarrow> 32 word" where
  "tcb_write a rf m = foldl (\<lambda>m r. m(a + tcb_off r := rf r)) m all_regs"

subsection \<open>Example states\<close>

text \<open>
  Fiber A calls with its record at \<open>0x20001000\<close> and its buffer below \<open>0x20002000\<close>; fiber B
  has its record at \<open>0x20001100\<close> and its buffer below \<open>0x20003000\<close>. In \<open>fiber_a\<close> the live
  stack of A holds two words and the record of B holds a stack pointer one word below the
  top.
\<close>

fun regs_a :: "reg \<Rightarrow> 32 word" where
  "regs_a R0 = 0x20001000" | "regs_a R1 = 0x20001100"
| "regs_a R2 = 0x20002000" | "regs_a R3 = 0x20003000"
| "regs_a R4 = 4" | "regs_a R5 = 5" | "regs_a R6 = 6" | "regs_a R7 = 7"
| "regs_a R8 = 8" | "regs_a R9 = 9" | "regs_a R10 = 10" | "regs_a R11 = 11"
| "regs_a R12 = 12" | "regs_a SP = 0x20003FF8" | "regs_a LR = 0x1001"

definition fiber_a :: cpu where
  "fiber_a = \<lparr>regs = regs_a,
              mem = (\<lambda>x. 0)(0x20001134 := 0x20003FFC, 0x20003FFC := 0xAA, 0x20003FF8 := 0xBB),
              zflag = False\<rparr>"

text \<open>The registers of fiber B when it switches back to A, one word on its stack.\<close>

fun regs_b :: "reg \<Rightarrow> 32 word" where
  "regs_b R0 = 0x20001100" | "regs_b R1 = 0x20001000"
| "regs_b R2 = 0x20003000" | "regs_b R3 = 0x20002000"
| "regs_b SP = 0x20003FFC" | "regs_b r = 0"

text \<open>
  Fiber A with nothing on its stack: the stack pointer is the top of the stack. Every word
  of memory holds \<open>0x20003FFC\<close>.
\<close>

fun regs_a0 :: "reg \<Rightarrow> 32 word" where
  "regs_a0 SP = 0x20004000" | "regs_a0 r = regs_a r"

definition fiber_a_empty :: cpu where
  "fiber_a_empty = \<lparr>regs = regs_a0, mem = (\<lambda>x. 0x20003FFC), zflag = False\<rparr>"

section \<open>Properties of the message bus\<close>

subsection \<open>Facts about the loops of listen\<close>

lemma find_pos_append: "find_pos i v ls = (walked, rest) \<Longrightarrow> ls = walked @ rest"
  by (induction ls arbitrary: walked rest) (auto split: if_splits prod.splits)

lemma link_listener_mem: "n \<in> set (link_listener n pl)"
  by (cases pl) (simp add: link_listener_def)

lemma already_captured_same_key:
  "already_captured K i v h (map (MicroBitListener_new i v) hs) \<longleftrightarrow> h \<in> set hs"
  by (induction hs) (auto simp: MicroBitListener_new_def)

lemma find_pos_same_key:
  "find_pos i v (map (MicroBitListener_new i v) hs) = (map (MicroBitListener_new i v) hs, [])"
  by (induction hs) (auto simp: MicroBitListener_new_def)

lemma listen_same_key:
  "listeners bus = map (MicroBitListener_new i v) hs \<Longrightarrow> h \<notin> set hs \<Longrightarrow>
   listeners (listen K bus i v h) = map (MicroBitListener_new i v) (hs @ [h])"
  by (simp add: listen_def already_captured_same_key find_pos_same_key link_listener_def)

lemma listen_all_same_key:
  "listeners bus = map (MicroBitListener_new i v) hs0 \<Longrightarrow> distinct (hs0 @ hs) \<Longrightarrow>
   listeners (listen_all K bus (map (\<lambda>h. (i, v, h)) hs)) = map (MicroBitListener_new i v) (hs0 @ hs)"
proof (induction hs arbitrary: bus hs0)
  case Nil
  then show ?case by simp
next
  case (Cons h hs)
  have "listeners (listen K bus i v h) = map (MicroBitListener_new i v) (hs0 @ [h])"
    using Cons.prems by (intro listen_same_key) auto
  moreover have "distinct ((hs0 @ [h]) @ hs)" using Cons.prems by simp
  ultimately have "listeners (listen_all K (listen K bus i v h) (map (\<lambda>h. (i, v, h)) hs))
     = map (MicroBitListener_new i v) ((hs0 @ [h]) @ hs)"
    by (rule Cons.IH)
  then show ?case by simp
qed

lemma find_start_dropWhile:
  "find_start src ls = dropWhile (\<lambda>l. listener_id l \<noteq> src) ls"
  by (induction ls) auto

lemma notify_source_filter:
  "notify_source K evt ls
     = filter (\<lambda>l. listener_value l = MICROBIT_BUS_VALUE_ANY K \<or> listener_value l = evt_value evt)
         (takeWhile (\<lambda>l. listener_id l = evt_source evt) ls)"
  by (induction ls) auto

lemma notify_any_takeWhile:
  "notify_any K ls = takeWhile (\<lambda>l. listener_id l = MICROBIT_BUS_ID_ANY K) ls"
  by (induction ls) auto


lemma listen_cases:
  "listen K bus i v h = bus
   \<or> (seq (listen K bus i v h) = seq bus + 1
      \<and> MicroBitListener_new i v h \<in> set (listeners (listen K bus i v h)))"
  by (simp add: listen_def link_listener_mem)




lemma notify_any_ids: "\<forall>n \<in> set (notify_any K ls). listener_id n = MICROBIT_BUS_ID_ANY K"
  by (induction ls) auto

subsection \<open>Dispatch\<close>

text \<open>
  C1. The claim: send notifies exactly the listeners that match the event, the any-source
  listeners under the same value test as the others; with (5,7,cbA), (5,ANY_VALUE,cbB) and
  (ANY_SOURCE,7,cbC) registered, the event (source 5, value 9) reaches only cbB.
  The third loop of \<^verbatim>\<open>send\<close> tests no value. With the sentinels below the numbers of the
  example (as 0 is):
  \<^item> after the three \<^verbatim>\<open>listen\<close> calls in the order given the registry holds (ANY_SOURCE,7,cbC)
    alone (see C6), and the event is given to cbC (handler 3), whose value is 7, and to
    nothing else;
  \<^item> on the registry that holds the three listeners in ascending order the event is given
    to cbB (handler 2) and then to cbC.
\<close>

theorem send_any_source_ignores_value:
  assumes "MICROBIT_BUS_ID_ANY K < 5" and "MICROBIT_BUS_VALUE_ANY K < 7"
  shows "fst (send K (listen_all K MicroBitMessageBus_new
                  [(5, 7, 1), (5, MICROBIT_BUS_VALUE_ANY K, 2), (MICROBIT_BUS_ID_ANY K, 7, 3)])
             \<lparr>evt_source = 5, evt_value = 9\<rparr> None) = [3]
     \<and> fst (send K \<lparr>listeners = [MicroBitListener_new (MICROBIT_BUS_ID_ANY K) 7 3,
                                MicroBitListener_new 5 (MICROBIT_BUS_VALUE_ANY K) 2,
                                MicroBitListener_new 5 7 1], seq = 3\<rparr>
             \<lparr>evt_source = 5, evt_value = 9\<rparr> None) = [2, 3]"
  using assms
  by (simp add: send_def send_notified_def send_start_def MicroBitListener_new_def
      listen_def link_listener_def MicroBitMessageBus_new_def)

theorem send_any_source_ignores_value_witness:
  "fst (send \<lparr>MICROBIT_BUS_ID_ANY = 0, MICROBIT_BUS_VALUE_ANY = 0\<rparr>
          (listen_all \<lparr>MICROBIT_BUS_ID_ANY = 0, MICROBIT_BUS_VALUE_ANY = 0\<rparr> MicroBitMessageBus_new
             [(5, 7, 1), (5, 0, 2), (0, 7, 3)])
          \<lparr>evt_source = 5, evt_value = 9\<rparr> None) = [3]
   \<and> fst (send \<lparr>MICROBIT_BUS_ID_ANY = 0, MICROBIT_BUS_VALUE_ANY = 0\<rparr>
          \<lparr>listeners = [MicroBitListener_new 0 7 3, MicroBitListener_new 5 0 2,
                        MicroBitListener_new 5 7 1], seq = 3\<rparr>
          \<lparr>evt_source = 5, evt_value = 9\<rparr> None) = [2, 3]"
  using send_any_source_ignores_value [of "\<lparr>MICROBIT_BUS_ID_ANY = 0, MICROBIT_BUS_VALUE_ANY = 0\<rparr>"]
  by simp

text \<open>
  C5. With a cache entry supplied, \<^verbatim>\<open>send\<close> starts its walk at the cached pointer exactly when
  the entry's sequence number equals that of the bus, and then leaves the entry as it is.
  When the numbers differ it scans the registry from its head: the start of the walk is the
  registry without its longest front part of nodes whose id is not the source of the event
  (the first node with that id and all that follows, or nothing), the handlers notified
  are those of a call without a cache, and the entry is overwritten with that start and the
  current sequence number. The walk itself takes the nodes from its start as long as their
  id is the source of the event and notifies those whose value is the value of the event or
  the any-value sentinel; the third loop takes the nodes from the head as long as their id
  is the any-id sentinel. So an entry captured at sequence number V and used after one
  \<^verbatim>\<open>listen\<close> that inserted (V + 1) causes the scan and ends with V + 1.
\<close>

theorem send_cache_use:
  "find_start (evt_source evt) (listeners bus)
     = dropWhile (\<lambda>l. listener_id l \<noteq> evt_source evt) (listeners bus)
   \<and> send K bus evt None
       = (map listener_cb
            (filter (\<lambda>l. listener_value l = MICROBIT_BUS_VALUE_ANY K
                          \<or> listener_value l = evt_value evt)
               (takeWhile (\<lambda>l. listener_id l = evt_source evt)
                  (dropWhile (\<lambda>l. listener_id l \<noteq> evt_source evt) (listeners bus)))
             @ takeWhile (\<lambda>l. listener_id l = MICROBIT_BUS_ID_ANY K) (listeners bus)), None)
   \<and> (cache_seq ce = seq bus \<longrightarrow>
      send_start bus evt (Some ce) = cache_ptr ce
      \<and> send K bus evt (Some ce)
          = (map listener_cb
               (filter (\<lambda>l. listener_value l = MICROBIT_BUS_VALUE_ANY K
                             \<or> listener_value l = evt_value evt)
                  (takeWhile (\<lambda>l. listener_id l = evt_source evt) (cache_ptr ce))
                @ takeWhile (\<lambda>l. listener_id l = MICROBIT_BUS_ID_ANY K) (listeners bus)),
             Some ce))
   \<and> (cache_seq ce \<noteq> seq bus \<longrightarrow>
      send_start bus evt (Some ce)
        = dropWhile (\<lambda>l. listener_id l \<noteq> evt_source evt) (listeners bus)
      \<and> fst (send K bus evt (Some ce)) = fst (send K bus evt None)
      \<and> snd (send K bus evt (Some ce))
          = Some (ce\<lparr>cache_ptr := dropWhile (\<lambda>l. listener_id l \<noteq> evt_source evt) (listeners bus),
                     cache_seq := seq bus\<rparr>))
   \<and> (cache_seq ce = seq bus \<and> listen K bus i v h \<noteq> bus \<longrightarrow>
      seq (listen K bus i v h) = cache_seq ce + 1
      \<and> cache_seq ce \<noteq> seq (listen K bus i v h)
      \<and> fst (send K (listen K bus i v h) evt (Some ce))
          = fst (send K (listen K bus i v h) evt None)
      \<and> snd (send K (listen K bus i v h) evt (Some ce))
          = Some (ce\<lparr>cache_ptr := dropWhile (\<lambda>l. listener_id l \<noteq> evt_source evt)
                                     (listeners (listen K bus i v h)),
                     cache_seq := cache_seq ce + 1\<rparr>))"
proof -
  have inserted: "seq (listen K bus i v h) = seq bus + 1" if "listen K bus i v h \<noteq> bus"
    using that listen_cases [of K bus i v h] by simp
  show ?thesis
    using inserted
    by (auto simp: send_def send_notified_def send_start_def find_start_dropWhile
        notify_source_filter notify_any_takeWhile)
qed

theorem send_cache_use_witness:
  "send \<lparr>MICROBIT_BUS_ID_ANY = 0, MICROBIT_BUS_VALUE_ANY = 0\<rparr>
      \<lparr>listeners = [MicroBitListener_new 3 1 1, MicroBitListener_new 4 1 4,
                    MicroBitListener_new 5 7 2], seq = 3\<rparr>
      \<lparr>evt_source = 5, evt_value = 7\<rparr>
      (Some \<lparr>cache_ptr = [MicroBitListener_new 5 7 2], cache_seq = 3\<rparr>)
     = ([2], Some \<lparr>cache_ptr = [MicroBitListener_new 5 7 2], cache_seq = 3\<rparr>)
   \<and> send \<lparr>MICROBIT_BUS_ID_ANY = 0, MICROBIT_BUS_VALUE_ANY = 0\<rparr>
      \<lparr>listeners = [MicroBitListener_new 3 1 1, MicroBitListener_new 4 1 4,
                    MicroBitListener_new 5 7 2], seq = 3\<rparr>
      \<lparr>evt_source = 5, evt_value = 7\<rparr>
      (Some \<lparr>cache_ptr = [], cache_seq = 2\<rparr>)
     = ([2], Some \<lparr>cache_ptr = [MicroBitListener_new 5 7 2], cache_seq = 3\<rparr>)
   \<and> send \<lparr>MICROBIT_BUS_ID_ANY = 0, MICROBIT_BUS_VALUE_ANY = 0\<rparr>
      \<lparr>listeners = [MicroBitListener_new 5 7 2, MicroBitListener_new 6 8 3], seq = 2\<rparr>
      \<lparr>evt_source = 5, evt_value = 7\<rparr>
      (Some \<lparr>cache_ptr = [], cache_seq = 1\<rparr>)
     = ([2], Some \<lparr>cache_ptr = [MicroBitListener_new 5 7 2, MicroBitListener_new 6 8 3],
                   cache_seq = 2\<rparr>)
   \<and> send \<lparr>MICROBIT_BUS_ID_ANY = 0, MICROBIT_BUS_VALUE_ANY = 0\<rparr>
      \<lparr>listeners = [MicroBitListener_new 5 7 2, MicroBitListener_new 6 8 3], seq = 2\<rparr>
      \<lparr>evt_source = 9, evt_value = 7\<rparr>
      (Some \<lparr>cache_ptr = [MicroBitListener_new 6 8 3], cache_seq = 1\<rparr>)
     = ([], Some \<lparr>cache_ptr = [], cache_seq = 2\<rparr>)
   \<and> send \<lparr>MICROBIT_BUS_ID_ANY = 0, MICROBIT_BUS_VALUE_ANY = 0\<rparr>
      (listen \<lparr>MICROBIT_BUS_ID_ANY = 0, MICROBIT_BUS_VALUE_ANY = 0\<rparr>
         \<lparr>listeners = [MicroBitListener_new 3 1 1, MicroBitListener_new 5 7 2], seq = 2\<rparr> 5 7 4)
      \<lparr>evt_source = 5, evt_value = 7\<rparr>
      (Some \<lparr>cache_ptr = [MicroBitListener_new 5 7 2], cache_seq = 2\<rparr>)
     = ([2, 4],
        Some \<lparr>cache_ptr = [MicroBitListener_new 5 7 2, MicroBitListener_new 5 7 4], cache_seq = 3\<rparr>)"
proof -
  let ?K = "\<lparr>MICROBIT_BUS_ID_ANY = 0, MICROBIT_BUS_VALUE_ANY = 0\<rparr>"
  let ?deep = "\<lparr>listeners = [MicroBitListener_new 3 1 1, MicroBitListener_new 4 1 4,
                    MicroBitListener_new 5 7 2], seq = 3\<rparr>"
  let ?head = "\<lparr>listeners = [MicroBitListener_new 5 7 2, MicroBitListener_new 6 8 3], seq = 2\<rparr>"
  let ?two = "\<lparr>listeners = [MicroBitListener_new 3 1 1, MicroBitListener_new 5 7 2], seq = 2\<rparr>"
  let ?e = "\<lparr>evt_source = 5, evt_value = 7\<rparr>"
  have a: "send ?K ?deep ?e (Some \<lparr>cache_ptr = [MicroBitListener_new 5 7 2], cache_seq = 3\<rparr>)
     = ([2], Some \<lparr>cache_ptr = [MicroBitListener_new 5 7 2], cache_seq = 3\<rparr>)"
    using send_cache_use [of ?e ?deep ?K "\<lparr>cache_ptr = [MicroBitListener_new 5 7 2], cache_seq = 3\<rparr>" 5 7 4]
    by (simp add: prod_eq_iff MicroBitListener_new_def)
  have b: "send ?K ?deep ?e (Some \<lparr>cache_ptr = [], cache_seq = 2\<rparr>)
     = ([2], Some \<lparr>cache_ptr = [MicroBitListener_new 5 7 2], cache_seq = 3\<rparr>)"
    using send_cache_use [of ?e ?deep ?K "\<lparr>cache_ptr = [], cache_seq = 2\<rparr>" 5 7 4]
    by (simp add: prod_eq_iff MicroBitListener_new_def)
  have c: "send ?K ?head ?e (Some \<lparr>cache_ptr = [], cache_seq = 1\<rparr>)
     = ([2], Some \<lparr>cache_ptr = [MicroBitListener_new 5 7 2, MicroBitListener_new 6 8 3],
                   cache_seq = 2\<rparr>)"
    using send_cache_use [of ?e ?head ?K "\<lparr>cache_ptr = [], cache_seq = 1\<rparr>" 5 7 4]
    by (simp add: prod_eq_iff MicroBitListener_new_def)
  have d: "send ?K ?head \<lparr>evt_source = 9, evt_value = 7\<rparr>
        (Some \<lparr>cache_ptr = [MicroBitListener_new 6 8 3], cache_seq = 1\<rparr>)
     = ([], Some \<lparr>cache_ptr = [], cache_seq = 2\<rparr>)"
    using send_cache_use [of "\<lparr>evt_source = 9, evt_value = 7\<rparr>" ?head ?K
        "\<lparr>cache_ptr = [MicroBitListener_new 6 8 3], cache_seq = 1\<rparr>" 5 7 4]
    by (simp add: prod_eq_iff MicroBitListener_new_def)
  have e: "send ?K (listen ?K ?two 5 7 4) ?e
        (Some \<lparr>cache_ptr = [MicroBitListener_new 5 7 2], cache_seq = 2\<rparr>)
     = ([2, 4],
        Some \<lparr>cache_ptr = [MicroBitListener_new 5 7 2, MicroBitListener_new 5 7 4], cache_seq = 3\<rparr>)"
    using send_cache_use [of ?e ?two ?K
        "\<lparr>cache_ptr = [MicroBitListener_new 5 7 2], cache_seq = 2\<rparr>" 5 7 4]
    by (simp add: prod_eq_iff send_def send_notified_def send_start_def listen_def
        link_listener_def MicroBitListener_new_def)
  show ?thesis
    using a b c d e by (simp only: simp_thms)
qed

text \<open>
  C10. A cache entry whose sequence number equals that of the bus is used without a look
  at the id of the node it points to. When that node's id differs from the source of the
  event, the walk over the sublist ends at once: the call notifies only what the third
  loop notifies, nodes whose id is the any-id sentinel, whatever listeners the registry holds
  for the source of the event; when that source is not the sentinel itself, no node with
  the id of the source is notified.
\<close>

theorem send_valid_cache_other_source:
  "cache_seq ce = seq bus \<Longrightarrow> cache_ptr ce = l # ls \<Longrightarrow> listener_id l \<noteq> evt_source evt \<Longrightarrow>
   send_notified K bus evt (Some ce) = notify_any K (listeners bus)
   \<and> send K bus evt (Some ce) = (map listener_cb (notify_any K (listeners bus)), Some ce)
   \<and> (\<forall>n \<in> set (send_notified K bus evt (Some ce)). listener_id n = MICROBIT_BUS_ID_ANY K)
   \<and> (evt_source evt \<noteq> MICROBIT_BUS_ID_ANY K \<longrightarrow>
        (\<forall>n \<in> set (send_notified K bus evt (Some ce)). listener_id n \<noteq> evt_source evt))"
  using notify_any_ids [of K "listeners bus"]
  by (simp add: send_def send_notified_def send_start_def)

theorem send_valid_cache_other_source_witness:
  "send \<lparr>MICROBIT_BUS_ID_ANY = 0, MICROBIT_BUS_VALUE_ANY = 0\<rparr>
      \<lparr>listeners = [MicroBitListener_new 3 1 1, MicroBitListener_new 5 7 2], seq = 2\<rparr>
      \<lparr>evt_source = 5, evt_value = 7\<rparr>
      (Some \<lparr>cache_ptr = [MicroBitListener_new 3 1 1, MicroBitListener_new 5 7 2], cache_seq = 2\<rparr>)
     = ([], Some \<lparr>cache_ptr = [MicroBitListener_new 3 1 1, MicroBitListener_new 5 7 2],
                  cache_seq = 2\<rparr>)
   \<and> fst (send \<lparr>MICROBIT_BUS_ID_ANY = 0, MICROBIT_BUS_VALUE_ANY = 0\<rparr>
      \<lparr>listeners = [MicroBitListener_new 3 1 1, MicroBitListener_new 5 7 2], seq = 2\<rparr>
      \<lparr>evt_source = 5, evt_value = 7\<rparr> None) = [2]"
  using send_valid_cache_other_source
    [of "\<lparr>cache_ptr = [MicroBitListener_new 3 1 1, MicroBitListener_new 5 7 2], cache_seq = 2\<rparr>"
      "\<lparr>listeners = [MicroBitListener_new 3 1 1, MicroBitListener_new 5 7 2], seq = 2\<rparr>"
      "MicroBitListener_new 3 1 1" "[MicroBitListener_new 5 7 2]"
      "\<lparr>evt_source = 5, evt_value = 7\<rparr>"
      "\<lparr>MICROBIT_BUS_ID_ANY = 0, MICROBIT_BUS_VALUE_ANY = 0\<rparr>"]
  by (simp add: MicroBitListener_new_def send_def send_notified_def send_start_def)

subsection \<open>Registration\<close>

text \<open>
  C3. The claim: after any sequence of listen calls from the empty registry the chain is in
  ascending order of id, ties in ascending order of value. The second loop of \<^verbatim>\<open>listen\<close> stops
  at the first node whose id or whose value is larger, which is not the place this order
  asks for: after \<^verbatim>\<open>listen(1,1,h10)\<close>, \<^verbatim>\<open>listen(1,9,h11)\<close>, \<^verbatim>\<open>listen(5,7,h12)\<close> the node with
  id 5 stands before the node (1,9).
\<close>

theorem listen_breaks_order:
  "listeners (listen_all K MicroBitMessageBus_new [(1, 1, 10), (1, 9, 11), (5, 7, 12)])
     = [MicroBitListener_new 1 1 10, MicroBitListener_new 5 7 12, MicroBitListener_new 1 9 11]
   \<and> \<not> registry_sorted
         (listeners (listen_all K MicroBitMessageBus_new [(1, 1, 10), (1, 9, 11), (5, 7, 12)]))"
  by (simp add: listen_def MicroBitMessageBus_new_def link_listener_def MicroBitListener_new_def
      registry_sorted_def listener_le_def)

text \<open>
  The two examples of idempotent registration: a second \<^verbatim>\<open>listen(5,7,h)\<close> and a
  \<^verbatim>\<open>listen(5,7,h)\<close> after \<^verbatim>\<open>listen(ANY_SOURCE,ANY_VALUE,h)\<close> (the sentinel not above 5)
  return early. More generally the first loop finds every capturing entry of a chain that
  is in ascending order of id, when the sentinel is not above the id asked for.
\<close>

lemma listen_twice:
  "listen_all K MicroBitMessageBus_new [(5, 7, h), (5, 7, h)]
     = listen K MicroBitMessageBus_new 5 7 h
   \<and> listeners (listen K MicroBitMessageBus_new 5 7 h) = [MicroBitListener_new 5 7 h]"
  by (simp add: listen_def MicroBitMessageBus_new_def link_listener_def MicroBitListener_new_def)

lemma listen_after_any:
  "MICROBIT_BUS_ID_ANY K \<le> 5 \<Longrightarrow>
   listen_all K MicroBitMessageBus_new
       [(MICROBIT_BUS_ID_ANY K, MICROBIT_BUS_VALUE_ANY K, h), (5, 7, h)]
     = listen K MicroBitMessageBus_new (MICROBIT_BUS_ID_ANY K) (MICROBIT_BUS_VALUE_ANY K) h"
  by (simp add: listen_def MicroBitMessageBus_new_def link_listener_def MicroBitListener_new_def)


text \<open>
  C4. The claim: a listen call whose (id, value, handler) is registered already, or captured
  by an entry of the same handler through a sentinel, leaves the registry as it was. The
  first loop of \<^verbatim>\<open>listen\<close> stops at the first node with a larger id, so an equal entry that
  stands behind such a node is not seen: on the chain that the three calls of C3 build,
  \<^verbatim>\<open>listen(1,9,h11)\<close> links a second node (1,9,h11).
\<close>

theorem listen_registers_twice:
  "listeners (listen_all K MicroBitMessageBus_new [(1, 1, 10), (1, 9, 11), (5, 7, 12), (1, 9, 11)])
     = [MicroBitListener_new 1 1 10, MicroBitListener_new 1 9 11, MicroBitListener_new 5 7 12,
        MicroBitListener_new 1 9 11]"
  by (simp add: listen_def MicroBitMessageBus_new_def link_listener_def MicroBitListener_new_def)

text \<open>
  C6. The claim: every listener in the registry before a listen call is in it, and reachable
  from the head, after the call. When the second loop walks past no node (\<^verbatim>\<open>p == NULL\<close>) the
  source sets the head to the new node, whose \<^verbatim>\<open>next\<close> is \<^verbatim>\<open>NULL\<close>: the chain that was there
  is no longer reachable. Here \<^verbatim>\<open>listen(3,7,h2)\<close> on the registry that holds (5,7,h1).
\<close>

theorem listen_drops_chain:
  "listeners (listen K \<lparr>listeners = [MicroBitListener_new 5 7 1], seq = 1\<rparr> 3 7 2)
     = [MicroBitListener_new 3 7 2]"
  by (simp add: listen_def link_listener_def MicroBitListener_new_def)




text \<open>
  C8. The claim: the listen calls of a finite set of registrations, made in any two orders
  from the empty registry, end with the same chain. Two registrations with the same id and
  value and different handlers already end in two different chains, each in the order of
  the calls.
\<close>

theorem listen_order_counterexample:
  "listeners (listen_all \<lparr>MICROBIT_BUS_ID_ANY = 0, MICROBIT_BUS_VALUE_ANY = 0\<rparr>
               MicroBitMessageBus_new [(5, 7, 1), (5, 7, 2)])
   \<noteq> listeners (listen_all \<lparr>MICROBIT_BUS_ID_ANY = 0, MICROBIT_BUS_VALUE_ANY = 0\<rparr>
               MicroBitMessageBus_new [(5, 7, 2), (5, 7, 1)])"
  by (simp add: listen_def MicroBitMessageBus_new_def link_listener_def MicroBitListener_new_def)

text \<open>
  C8, as amended. For registrations that share one id and one value and have pairwise
  different handlers, every order of the listen calls from the empty registry ends with
  exactly these registrations, each once, in the order of the calls; two orders give the
  same listeners as a multiset.
\<close>

theorem listen_same_key_orderings:
  assumes "distinct hs" and "mset hs' = mset hs"
  shows "listeners (listen_all K MicroBitMessageBus_new (map (\<lambda>h. (i, v, h)) hs))
           = map (MicroBitListener_new i v) hs
       \<and> listeners (listen_all K MicroBitMessageBus_new (map (\<lambda>h. (i, v, h)) hs'))
           = map (MicroBitListener_new i v) hs'
       \<and> mset (listeners (listen_all K MicroBitMessageBus_new (map (\<lambda>h. (i, v, h)) hs')))
           = mset (listeners (listen_all K MicroBitMessageBus_new (map (\<lambda>h. (i, v, h)) hs)))"
proof -
  have d': "distinct hs'" using assms by (metis mset_eq_imp_distinct_iff)
  have e: "listeners MicroBitMessageBus_new = map (MicroBitListener_new i v) []"
    by (simp add: MicroBitMessageBus_new_def)
  have a: "listeners (listen_all K MicroBitMessageBus_new (map (\<lambda>h. (i, v, h)) hs))
           = map (MicroBitListener_new i v) hs"
    using listen_all_same_key [OF e, of hs K] assms(1) by simp
  have b: "listeners (listen_all K MicroBitMessageBus_new (map (\<lambda>h. (i, v, h)) hs'))
           = map (MicroBitListener_new i v) hs'"
    using listen_all_same_key [OF e, of hs' K] d' by simp
  show ?thesis using a b assms(2) by simp
qed

theorem listen_same_key_orderings_witness:
  "distinct [1, 2 :: nat] \<and> mset [2, 1 :: nat] = mset [1, 2]
   \<and> listeners (listen_all \<lparr>MICROBIT_BUS_ID_ANY = 0, MICROBIT_BUS_VALUE_ANY = 0\<rparr>
                 MicroBitMessageBus_new [(5, 7, 1), (5, 7, 2)])
       = [MicroBitListener_new 5 7 1, MicroBitListener_new 5 7 2]
   \<and> listeners (listen_all \<lparr>MICROBIT_BUS_ID_ANY = 0, MICROBIT_BUS_VALUE_ANY = 0\<rparr>
                 MicroBitMessageBus_new [(5, 7, 2), (5, 7, 1)])
       = [MicroBitListener_new 5 7 2, MicroBitListener_new 5 7 1]"
proof -
  have d: "distinct [1, 2 :: nat]" by simp
  have m: "mset [2, 1 :: nat] = mset [1, 2]" by simp
  show ?thesis
    using d m
      listen_same_key_orderings [OF d m, of "\<lparr>MICROBIT_BUS_ID_ANY = 0, MICROBIT_BUS_VALUE_ANY = 0\<rparr>" 5 7]
    by simp
qed

section \<open>Properties of the context switch\<close>

subsection \<open>Alignment and multiples of four\<close>

lemma aligned_dvd: "aligned a \<longleftrightarrow> 4 dvd a"
proof -
  have "a AND 3 = take_bit 2 a"
    by (simp add: take_bit_eq_mask mask_eq_exp_minus_1)
  then show ?thesis
    by (simp add: aligned_def take_bit_eq_0_iff)
qed

lemma aligned_add4: "aligned a \<Longrightarrow> aligned (a + 4)"
  by (simp add: aligned_dvd)

lemma aligned_sub4: "aligned a \<Longrightarrow> aligned (a - 4)"
  by (simp add: aligned_dvd)

lemma aligned_plus: "aligned a \<Longrightarrow> aligned (a + k) \<longleftrightarrow> aligned k"
  by (simp add: aligned_dvd dvd_add_right_iff)

lemma aligned_numeral: "aligned (numeral k) \<longleftrightarrow> (numeral k :: 32 word) AND 3 = 0"
  by (simp add: aligned_def)

lemma four_mult_eq0_iff: "(4 * of_nat n :: 32 word) = 0 \<longleftrightarrow> 2 ^ 30 dvd n"
proof -
  have "(4 * of_nat n :: 32 word) = of_nat (4 * n)" by simp
  also have "\<dots> = 0 \<longleftrightarrow> 2 ^ 32 dvd 4 * n"
    by (simp only: word_of_nat_eq_0_iff) simp
  also have "\<dots> \<longleftrightarrow> 2 ^ 30 dvd n"
  proof -
    have "(2::nat) ^ 32 = 4 * 2 ^ 30" by simp
    then show ?thesis by (simp only: mult_dvd_mono dvd_mult_cancel_left) simp
  qed
  finally show ?thesis .
qed

lemma four_mult_neq0: "0 < n \<Longrightarrow> n < 2 ^ 30 \<Longrightarrow> (4 * of_nat n :: 32 word) \<noteq> 0"
  by (auto simp: four_mult_eq0_iff dest: dvd_imp_le)

subsection \<open>The copy loops\<close>

text \<open>
  A copy loop entered with R4 a positive multiple \<open>4 * n\<close> above R6 (at most \<open>2 ^ 30\<close>
  words, which is the case of R4 equal to R6 at entry) ends after \<open>n\<close> rounds.
\<close>

lemma store_loop_run:
  assumes "rb = R1 \<or> rb = R2"
    and "regs s R4 - regs s R6 = 4 * of_nat n" and "0 < n" and "n \<le> 2 ^ 30"
    and "aligned (regs s R4)" and "aligned (regs s rb)"
  shows "loop_bne [Subs R4 4, Subs rb 4, Ldr R5 R4 0, Str R5 rb 0, Cmp R4 R6] s =
    Some (s\<lparr>regs := (regs s)
              (R4 := regs s R6, rb := regs s rb - 4 * of_nat n,
               R5 := copy_down n (regs s R4) (regs s rb) (mem s) (regs s rb - 4 * of_nat n)),
            mem := copy_down n (regs s R4) (regs s rb) (mem s),
            zflag := True\<rparr>)"
  using assms(2-)
proof (induction n arbitrary: s)
  case 0
  then show ?case by simp
next
  case (Suc n)
  let ?body = "[Subs R4 4, Subs rb 4, Ldr R5 R4 0, Str R5 rb 0, Cmp R4 R6]"
  define s1 where "s1 = s\<lparr>regs := (regs s)(R4 := regs s R4 - 4, rb := regs s rb - 4, R5 := mem s (regs s R4 - 4)),
               mem := (mem s)(regs s rb - 4 := mem s (regs s R4 - 4)),
               zflag := (regs s R4 - 4 = regs s R6)\<rparr>"
  have rb: "rb \<noteq> R4" "rb \<noteq> R5" "rb \<noteq> R6" using assms(1) by auto
  have body: "exec ?body s = Some s1"
    using Suc.prems rb by (simp add: aligned_sub4 Let_def s1_def)
  have step: "loop_bne ?body s = (if zflag s1 then Some s1 else loop_bne ?body s1)"
    by (subst loop_bne.simps) (simp only: body Option.bind.simps)
  show ?case
  proof (cases "n = 0")
    case True
    then have "regs s R4 - 4 = regs s R6" using Suc.prems by (simp add: algebra_simps)
    then show ?thesis
      using True rb by (auto simp: step s1_def fun_eq_iff)
  next
    case False
    have d: "regs s R4 - 4 - regs s R6 = 4 * of_nat n"
      using Suc.prems by (simp add: algebra_simps)
    have "(4 * of_nat n :: 32 word) \<noteq> 0"
      using False Suc.prems by (intro four_mult_neq0) auto
    then have nz: "regs s R4 - 4 \<noteq> regs s R6" using d by auto
    have ih: "loop_bne ?body s1 =
      Some (s1\<lparr>regs := (regs s1)
              (R4 := regs s1 R6, rb := regs s1 rb - 4 * of_nat n,
               R5 := copy_down n (regs s1 R4) (regs s1 rb) (mem s1) (regs s1 rb - 4 * of_nat n)),
            mem := copy_down n (regs s1 R4) (regs s1 rb) (mem s1),
            zflag := True\<rparr>)"
      using False Suc.prems rb d by (intro Suc.IH) (auto simp: aligned_sub4 s1_def)
    have "loop_bne ?body s = loop_bne ?body s1"
      using nz by (simp add: step) (simp add: s1_def)
    also note ih
    finally show ?thesis
      using rb by (auto simp: s1_def fun_eq_iff algebra_simps)
  qed
qed

lemma restore_loop_run:
  assumes "regs s R4 - regs s R6 = 4 * of_nat n" and "0 < n" and "n \<le> 2 ^ 30"
    and "aligned (regs s R4)" and "aligned (regs s R3)"
  shows "loop_bne [Subs R4 4, Subs R3 4, Ldr R5 R3 0, Str R5 R4 0, Cmp R4 R6] s =
    Some (s\<lparr>regs := (regs s)
              (R4 := regs s R6, R3 := regs s R3 - 4 * of_nat n,
               R5 := copy_down n (regs s R3) (regs s R4) (mem s) (regs s R6)),
            mem := copy_down n (regs s R3) (regs s R4) (mem s),
            zflag := True\<rparr>)"
  using assms
proof (induction n arbitrary: s)
  case 0
  then show ?case by simp
next
  case (Suc n)
  let ?body = "[Subs R4 4, Subs R3 4, Ldr R5 R3 0, Str R5 R4 0, Cmp R4 R6]"
  define s1 where "s1 = s\<lparr>regs := (regs s)(R4 := regs s R4 - 4, R3 := regs s R3 - 4, R5 := mem s (regs s R3 - 4)),
               mem := (mem s)(regs s R4 - 4 := mem s (regs s R3 - 4)),
               zflag := (regs s R4 - 4 = regs s R6)\<rparr>"
  have body: "exec ?body s = Some s1"
    using Suc.prems by (simp add: aligned_sub4 Let_def s1_def)
  have step: "loop_bne ?body s = (if zflag s1 then Some s1 else loop_bne ?body s1)"
    by (subst loop_bne.simps) (simp only: body Option.bind.simps)
  show ?case
  proof (cases "n = 0")
    case True
    then have "regs s R4 - 4 = regs s R6" using Suc.prems by (simp add: algebra_simps)
    then show ?thesis
      using True by (auto simp: step s1_def fun_eq_iff)
  next
    case False
    have d: "regs s R4 - 4 - regs s R6 = 4 * of_nat n"
      using Suc.prems by (simp add: algebra_simps)
    have "(4 * of_nat n :: 32 word) \<noteq> 0"
      using False Suc.prems by (intro four_mult_neq0) auto
    then have nz: "regs s R4 - 4 \<noteq> regs s R6" using d by auto
    have ih: "loop_bne ?body s1 =
      Some (s1\<lparr>regs := (regs s1)
              (R4 := regs s1 R6, R3 := regs s1 R3 - 4 * of_nat n,
               R5 := copy_down n (regs s1 R3) (regs s1 R4) (mem s1) (regs s1 R6)),
            mem := copy_down n (regs s1 R3) (regs s1 R4) (mem s1),
            zflag := True\<rparr>)"
      using False Suc.prems d by (intro Suc.IH) (auto simp: aligned_sub4 s1_def)
    have "loop_bne ?body s = loop_bne ?body s1"
      using nz by (simp add: step) (simp add: s1_def)
    also note ih
    finally show ?thesis
      by (auto simp: s1_def fun_eq_iff algebra_simps)
  qed
qed

lemma slice_addrs_mem:
  "x \<in> set (slice_addrs p n) \<longleftrightarrow> (\<exists>k<n. x = p - 4 * of_nat (Suc k))"
proof (induction n arbitrary: p)
  case 0
  show ?case by simp
next
  case (Suc n)
  have "(\<exists>k<Suc n. x = p - 4 * of_nat (Suc k))
        \<longleftrightarrow> x = p - 4 \<or> (\<exists>k<n. x = p - 4 - 4 * of_nat (Suc k))"
  proof
    assume "\<exists>k<Suc n. x = p - 4 * of_nat (Suc k)"
    then obtain k where k: "k < Suc n" "x = p - 4 * of_nat (Suc k)" by blast
    show "x = p - 4 \<or> (\<exists>k<n. x = p - 4 - 4 * of_nat (Suc k))"
    proof (cases k)
      case 0
      with k show ?thesis by simp
    next
      case (Suc j)
      with k have "j < n" "x = p - 4 - 4 * of_nat (Suc j)" by (simp_all add: algebra_simps)
      then show ?thesis by blast
    qed
  next
    assume "x = p - 4 \<or> (\<exists>k<n. x = p - 4 - 4 * of_nat (Suc k))"
    then show "\<exists>k<Suc n. x = p - 4 * of_nat (Suc k)"
    proof
      assume "x = p - 4"
      then have "x = p - 4 * of_nat (Suc 0)" by simp
      then show ?thesis by blast
    next
      assume "\<exists>k<n. x = p - 4 - 4 * of_nat (Suc k)"
      then obtain k where "k < n" "x = p - 4 - 4 * of_nat (Suc k)" by blast
      then have "Suc k < Suc n" "x = p - 4 * of_nat (Suc (Suc k))" by (simp_all add: algebra_simps)
      then show ?thesis by blast
    qed
  qed
  then show ?case by (simp add: Suc.IH)
qed

lemma slice_addrs_not_self: "n < 2 ^ 30 \<Longrightarrow> p \<notin> set (slice_addrs p n)"
proof
  assume n: "n < 2 ^ 30" and "p \<in> set (slice_addrs p n)"
  then obtain k where k: "k < n" "p = p - 4 * of_nat (Suc k)"
    by (auto simp: slice_addrs_mem)
  then have "(4 * of_nat (Suc k) :: 32 word) = 0" by simp
  moreover have "(4 * of_nat (Suc k) :: 32 word) \<noteq> 0"
    using k n by (intro four_mult_neq0) auto
  ultimately show False by simp
qed

text \<open>
  The memory after the rounds: cells outside the destination are untouched; when source
  and destination are apart the destination holds the source; and a destination cell whose
  source has not been written by an earlier round holds that source, overlap or not.
\<close>

lemma copy_down_frame:
  "x \<notin> set (slice_addrs dst n) \<Longrightarrow> copy_down n src dst m x = m x"
  by (induction n arbitrary: src dst m) auto

lemma copy_down_slice:
  "n \<le> 2 ^ 30 \<Longrightarrow> set (slice_addrs src n) \<inter> set (slice_addrs dst n) = {} \<Longrightarrow>
   map (copy_down n src dst m) (slice_addrs dst n) = map m (slice_addrs src n)"
proof (induction n arbitrary: src dst m)
  case 0
  show ?case by simp
next
  case (Suc n)
  let ?m' = "m(dst - 4 := m (src - 4))"
  have n: "n < 2 ^ 30" using Suc.prems by simp
  have hd: "copy_down n (src - 4) (dst - 4) ?m' (dst - 4) = m (src - 4)"
    using slice_addrs_not_self [OF n, of "dst - 4"] by (simp add: copy_down_frame)
  have disj: "set (slice_addrs (src - 4) n) \<inter> set (slice_addrs (dst - 4) n) = {}"
    using Suc.prems(2) by auto
  have "map (copy_down n (src - 4) (dst - 4) ?m') (slice_addrs (dst - 4) n)
          = map ?m' (slice_addrs (src - 4) n)"
    using n disj by (intro Suc.IH) auto
  also have "\<dots> = map m (slice_addrs (src - 4) n)"
    using Suc.prems(2) by (intro map_cong) auto
  finally show ?case using hd by simp
qed

lemma copy_down_early:
  "k < n \<Longrightarrow> n \<le> 2 ^ 30 \<Longrightarrow> 4 * k < unat (src - dst) \<Longrightarrow>
   copy_down n src dst m (dst - 4 * of_nat (Suc k)) = m (src - 4 * of_nat (Suc k))"
proof (induction n arbitrary: src dst m k)
  case 0
  then show ?case by simp
next
  case (Suc n)
  let ?m' = "m(dst - 4 := m (src - 4))"
  have n: "n < 2 ^ 30" using Suc.prems by simp
  show ?case
  proof (cases k)
    case 0
    then show ?thesis
      using slice_addrs_not_self [OF n, of "dst - 4"] by (simp add: copy_down_frame)
  next
    case (Suc j)
    have j: "j < n" "4 * j < unat (src - 4 - (dst - 4))" using Suc Suc.prems by auto
    have "unat (4 * of_nat k :: 32 word) = 4 * k"
      using Suc.prems by (simp add: unat_word_ariths unat_of_nat)
    then have "4 * of_nat k \<noteq> src - dst" using Suc.prems by auto
    then have ne: "src - 4 * of_nat (Suc k) \<noteq> dst - 4"
      by (auto simp: algebra_simps)
    have ih: "copy_down n (src - 4) (dst - 4) ?m' (dst - 4 - 4 * of_nat (Suc j))
            = ?m' (src - 4 - 4 * of_nat (Suc j))"
      using j n by (intro Suc.IH) auto
    have e1: "dst - 4 - 4 * of_nat (Suc j) = dst - 4 * of_nat (Suc k)"
      and e2: "src - 4 - 4 * of_nat (Suc j) = src - 4 * of_nat (Suc k)"
      using Suc by (simp_all add: algebra_simps)
    have "copy_down (Suc n) src dst m (dst - 4 * of_nat (Suc k))
            = copy_down n (src - 4) (dst - 4) ?m' (dst - 4 - 4 * of_nat (Suc j))"
      by (simp only: copy_down.simps e1)
    also have "\<dots> = ?m' (src - 4 * of_nat (Suc k))"
      by (simp only: ih e2)
    also have "\<dots> = m (src - 4 * of_nat (Suc k))"
      by (rule fun_upd_other [OF ne])
    finally show ?thesis .
  qed
qed

subsection \<open>The record of saved registers\<close>

lemma all_regs_complete: "r \<in> set all_regs"
  by (cases r) (simp_all add: all_regs_def)

lemma tcb_write_at: "tcb_write a rf m (a + tcb_off r) = rf r"
  by (cases r) (simp_all add: tcb_write_def all_regs_def)

lemma tcb_write_frame: "x \<notin> set (tcb_addrs a) \<Longrightarrow> tcb_write a rf m x = m x"
  by (simp add: tcb_write_def tcb_addrs_def all_regs_def)

lemma tcb_addrs_mem: "a + tcb_off r \<in> set (tcb_addrs a)"
  using all_regs_complete [of r] by (simp add: tcb_addrs_def)

lemma store_tcb_run:
  assumes "aligned (regs s R0)"
  shows "exec store_tcb s =
    Some (s\<lparr>regs := (regs s)(R6 := regs s SP, R4 := regs s LR),
            mem := tcb_write (regs s R0) (regs s) (mem s)\<rparr>)"
  using assms
  by (simp add: store_tcb_def Let_def tcb_write_def all_regs_def aligned_plus aligned_numeral)

lemma exec_append: "exec (xs @ ys) s = Option.bind (exec xs s) (exec ys)"
  by (induction xs arbitrary: s) (auto simp: Option.bind_assoc split: Option.bind_split)

subsection \<open>The routines in closed form\<close>

text \<open>
  The state each routine returns, for a stack pointer \<open>4 * n\<close> below the top with
  \<open>0 < n \<le> 2 ^ 30\<close>; \<open>n = 2 ^ 30\<close> is the case of the stack pointer at the top.
\<close>

lemma swap_out_run:
  assumes "aligned (regs s R0)" and "aligned (regs s R2)"
    and "regs s SP = stack_top - 4 * of_nat n" and "0 < n" and "n \<le> 2 ^ 30"
  shows "swap_out s =
    Some (s\<lparr>regs := (regs s)
              (R7 := stack_top, R6 := regs s SP, R4 := regs s SP,
               R2 := regs s R2 - 4 * of_nat n,
               R5 := copy_down n stack_top (regs s R2) (tcb_write (regs s R0) (regs s) (mem s))
                       (regs s R2 - 4 * of_nat n)),
            mem := copy_down n stack_top (regs s R2) (tcb_write (regs s R0) (regs s) (mem s)),
            zflag := True\<rparr>)"
proof -
  define s0 where "s0 = s\<lparr>regs := (regs s)(R6 := regs s SP, R4 := stack_top, R7 := stack_top),
                          mem := tcb_write (regs s R0) (regs s) (mem s), zflag := False\<rparr>"
  have pre: "exec (store_tcb @ [Movs R7 0x20, Lsls R7 24, Movs R4 0x40, Lsls R4 8, Orrs R7 R4, Mov R4 R7]) s
             = Some s0"
    using assms(1) by (auto simp: exec_append store_tcb_run s0_def stack_top_def fun_eq_iff)
  have "loop_bne [Subs R4 4, Subs R2 4, Ldr R5 R4 0, Str R5 R2 0, Cmp R4 R6] s0 =
    Some (s0\<lparr>regs := (regs s0)
              (R4 := regs s0 R6, R2 := regs s0 R2 - 4 * of_nat n,
               R5 := copy_down n (regs s0 R4) (regs s0 R2) (mem s0) (regs s0 R2 - 4 * of_nat n)),
            mem := copy_down n (regs s0 R4) (regs s0 R2) (mem s0),
            zflag := True\<rparr>)"
    using assms by (intro store_loop_run) (auto simp: s0_def stack_top_def aligned_numeral)
  then show ?thesis
    by (auto simp: swap_out_def pre s0_def fun_eq_iff)
qed

lemma swap_in_run:
  assumes "aligned (regs t R1)" and "aligned (regs t R3)" and "regs t R7 = stack_top"
    and "mem t (regs t R1 + 52) = stack_top - 4 * of_nat n" and "0 < n" and "n \<le> 2 ^ 30"
  shows "swap_in t =
    Some \<lparr>regs = (\<lambda>r. if r = SP then mem t (regs t R1 + 52)
                     else if r = LR then mem t (regs t R1 + 56)
                     else copy_down n (regs t R3) stack_top (mem t) (regs t R1 + tcb_off r)),
          mem = copy_down n (regs t R3) stack_top (mem t),
          zflag = True\<rparr>"
proof -
  define t0 where "t0 = t\<lparr>regs := (regs t)(LR := mem t (regs t R1 + 56), R6 := mem t (regs t R1 + 52),
                                        SP := mem t (regs t R1 + 52), R4 := stack_top)\<rparr>"
  have pre: "exec [Ldr R4 R1 56, Mov LR R4, Ldr R6 R1 52, Mov SP R6, Mov R4 R7] t = Some t0"
    using assms(1,3) by (auto simp: t0_def fun_eq_iff aligned_plus aligned_numeral)
  define t1 where "t1 = t0\<lparr>regs := (regs t0)
              (R4 := regs t0 R6, R3 := regs t0 R3 - 4 * of_nat n,
               R5 := copy_down n (regs t0 R3) (regs t0 R4) (mem t0) (regs t0 R6)),
            mem := copy_down n (regs t0 R3) (regs t0 R4) (mem t0),
            zflag := True\<rparr>"
  have loop: "loop_bne [Subs R4 4, Subs R3 4, Ldr R5 R3 0, Str R5 R4 0, Cmp R4 R6] t0 = Some t1"
    unfolding t1_def
    using assms by (intro restore_loop_run) (auto simp: t0_def stack_top_def aligned_numeral)
  have r1: "regs t1 R1 = regs t R1" and m1: "mem t1 = copy_down n (regs t R3) stack_top (mem t)"
    and sp1: "regs t1 SP = mem t (regs t R1 + 52)" and lr1: "regs t1 LR = mem t (regs t R1 + 56)"
    and z1: "zflag t1 = True"
    by (simp_all add: t1_def t0_def)
  have post: "exec [Ldr R4 R1 48, Mov R12 R4,
              Ldr R4 R1 44, Mov R11 R4,
              Ldr R4 R1 40, Mov R10 R4,
              Ldr R4 R1 36, Mov R9 R4,
              Ldr R4 R1 32, Mov R8 R4,
              Ldr R7 R1 28, Ldr R6 R1 24, Ldr R5 R1 20, Ldr R4 R1 16,
              Ldr R3 R1 12, Ldr R2 R1 8, Ldr R0 R1 0, Ldr R1 R1 4] t1 =
     Some \<lparr>regs = (\<lambda>r. if r = SP then regs t1 SP
                     else if r = LR then regs t1 LR
                     else mem t1 (regs t1 R1 + tcb_off r)),
          mem = mem t1, zflag = zflag t1\<rparr>"
    using assms(1) r1
    apply (simp add: aligned_plus aligned_numeral Let_def)
    apply (rule cpu.equality)
       apply (simp_all add: fun_eq_iff)
    apply (rule allI)
    subgoal for r by (cases r) simp_all
    done
  show ?thesis
    by (simp only: swap_in_def pre loop post Option.bind.simps r1 m1 sp1 lr1 z1)
qed

lemma save_context_run:
  assumes "aligned (regs s R0)" and "aligned (regs s R1)"
    and "regs s SP = stack_top - 4 * of_nat n" and "0 < n" and "n \<le> 2 ^ 30"
  shows "save_context s =
    Some (s\<lparr>regs := (regs s)
              (R1 := regs s R1 - 4 * of_nat n,
               R7 := copy_down n stack_top (regs s R1) (tcb_write (regs s R0) (regs s) (mem s)) (regs s R0 + 28),
               R6 := copy_down n stack_top (regs s R1) (tcb_write (regs s R0) (regs s) (mem s)) (regs s R0 + 24),
               R5 := copy_down n stack_top (regs s R1) (tcb_write (regs s R0) (regs s) (mem s)) (regs s R0 + 20),
               R4 := copy_down n stack_top (regs s R1) (tcb_write (regs s R0) (regs s) (mem s)) (regs s R0 + 16)),
            mem := copy_down n stack_top (regs s R1) (tcb_write (regs s R0) (regs s) (mem s)),
            zflag := True\<rparr>)"
proof -
  define s0 where "s0 = s\<lparr>regs := (regs s)(R6 := regs s SP, R4 := stack_top, R5 := stack_top),
                          mem := tcb_write (regs s R0) (regs s) (mem s), zflag := False\<rparr>"
  have pre: "exec (store_tcb @ [Movs R5 0x20, Lsls R5 24, Movs R4 0x40, Lsls R4 8, Orrs R5 R4, Mov R4 R5]) s
             = Some s0"
    using assms(1) by (auto simp: exec_append store_tcb_run s0_def stack_top_def fun_eq_iff)
  define s1 where "s1 = s0\<lparr>regs := (regs s0)
              (R4 := regs s0 R6, R1 := regs s0 R1 - 4 * of_nat n,
               R5 := copy_down n (regs s0 R4) (regs s0 R1) (mem s0) (regs s0 R1 - 4 * of_nat n)),
            mem := copy_down n (regs s0 R4) (regs s0 R1) (mem s0),
            zflag := True\<rparr>"
  have loop: "loop_bne [Subs R4 4, Subs R1 4, Ldr R5 R4 0, Str R5 R1 0, Cmp R4 R6] s0 = Some s1"
    unfolding s1_def
    using assms by (intro store_loop_run) (auto simp: s0_def stack_top_def aligned_numeral)
  have r0: "regs s1 R0 = regs s R0" "aligned (regs s1 R0)"
    using assms(1) by (simp_all add: s1_def s0_def)
  have post: "exec [Ldr R7 R0 28, Ldr R6 R0 24, Ldr R5 R0 20, Ldr R4 R0 16] s1 =
    Some (s1\<lparr>regs := (regs s1)(R7 := mem s1 (regs s1 R0 + 28), R6 := mem s1 (regs s1 R0 + 24),
                                R5 := mem s1 (regs s1 R0 + 20), R4 := mem s1 (regs s1 R0 + 16))\<rparr>)"
    using r0(2) by (simp add: aligned_plus aligned_numeral Let_def)
  have "save_context s =
    Some (s1\<lparr>regs := (regs s1)(R7 := mem s1 (regs s1 R0 + 28), R6 := mem s1 (regs s1 R0 + 24),
                                R5 := mem s1 (regs s1 R0 + 20), R4 := mem s1 (regs s1 R0 + 16))\<rparr>)"
    by (simp only: save_context_def pre loop post Option.bind.simps)
  then show ?thesis
    by (auto simp: s1_def s0_def fun_eq_iff)
qed

lemma swap_out_saves:
  assumes "aligned (regs s R0)" and "aligned (regs s R2)"
    and "regs s SP = stack_top - 4 * of_nat n" and "0 < n" and "n < 2 ^ 30"
    and "set (tcb_addrs (regs s R0)) \<inter> set (slice_addrs (regs s R2) n) = {}"
    and "set (tcb_addrs (regs s R0)) \<inter> set (slice_addrs stack_top n) = {}"
    and "set (slice_addrs (regs s R2) n) \<inter> set (slice_addrs stack_top n) = {}"
  shows "\<exists>t. swap_out s = Some t
    \<and> (\<forall>r. mem t (regs s R0 + tcb_off r) = regs s r)
    \<and> map (mem t) (slice_addrs (regs s R2) n) = map (mem s) (slice_addrs stack_top n)
    \<and> (\<forall>x. x \<notin> set (tcb_addrs (regs s R0)) \<union> set (slice_addrs (regs s R2) n) \<longrightarrow> mem t x = mem s x)
    \<and> regs t R7 = stack_top
    \<and> (\<forall>r. r \<notin> {R2, R4, R5, R6, R7} \<longrightarrow> regs t r = regs s r)"
proof -
  let ?W = "tcb_write (regs s R0) (regs s) (mem s)"
  let ?M = "copy_down n stack_top (regs s R2) ?W"
  have n: "n \<le> 2 ^ 30" using assms(5) by simp
  note run = swap_out_run [OF assms(1-4) n]
  have tcb: "?M (regs s R0 + tcb_off r) = regs s r" for r
  proof -
    have "regs s R0 + tcb_off r \<notin> set (slice_addrs (regs s R2) n)"
      using assms(6) tcb_addrs_mem [of "regs s R0" r] by blast
    then show ?thesis by (simp add: copy_down_frame tcb_write_at)
  qed
  have "map ?M (slice_addrs (regs s R2) n) = map ?W (slice_addrs stack_top n)"
    using n assms(8) by (intro copy_down_slice) auto
  also have "\<dots> = map (mem s) (slice_addrs stack_top n)"
    using assms(7) by (intro map_cong refl tcb_write_frame) auto
  finally have slice: "map ?M (slice_addrs (regs s R2) n) = map (mem s) (slice_addrs stack_top n)" .
  have frame: "?M x = mem s x"
    if "x \<notin> set (tcb_addrs (regs s R0)) \<union> set (slice_addrs (regs s R2) n)" for x
    using that by (simp add: copy_down_frame tcb_write_frame)
  show ?thesis
    using tcb slice frame by (simp add: run)
qed

lemma swap_in_frame:
  assumes "aligned (regs t R1)" and "aligned (regs t R3)" and "regs t R7 = stack_top"
    and "mem t (regs t R1 + 52) = stack_top - 4 * of_nat n" and "0 < n" and "n < 2 ^ 30"
  shows "\<exists>t'. swap_in t = Some t'
    \<and> (\<forall>x. x \<notin> set (slice_addrs stack_top n) \<longrightarrow> mem t' x = mem t x)
    \<and> regs t' SP = mem t (regs t R1 + 52) \<and> regs t' LR = mem t (regs t R1 + 56)
    \<and> (\<forall>r. r \<noteq> SP \<and> r \<noteq> LR \<longrightarrow> regs t' r = mem t' (regs t R1 + tcb_off r))
    \<and> (set (slice_addrs (regs t R3) n) \<inter> set (slice_addrs stack_top n) = {} \<longrightarrow>
         map (mem t') (slice_addrs stack_top n) = map (mem t) (slice_addrs (regs t R3) n))"
proof -
  have n: "n \<le> 2 ^ 30" using assms(6) by simp
  note run = swap_in_run [OF assms(1-5) n]
  have "map (copy_down n (regs t R3) stack_top (mem t)) (slice_addrs stack_top n)
          = map (mem t) (slice_addrs (regs t R3) n)"
    if "set (slice_addrs (regs t R3) n) \<inter> set (slice_addrs stack_top n) = {}"
    using n that by (intro copy_down_slice) auto
  then show ?thesis
    by (simp add: run copy_down_frame)
qed

lemma round_trip_unfolded:
  assumes a: "aligned (regs s R0)" "aligned (regs s R2)"
    and depth: "regs s SP = stack_top - 4 * of_nat n" "0 < n" "n < 2 ^ 30"
    and sep: "set (tcb_addrs (regs s R0)) \<inter> set (slice_addrs (regs s R2) n) = {}"
      "set (tcb_addrs (regs s R0)) \<inter> set (slice_addrs stack_top n) = {}"
      "set (slice_addrs (regs s R2) n) \<inter> set (slice_addrs stack_top n) = {}"
    and b: "aligned (regs s R1)" "aligned (regs s R3)"
      "mem s (regs s R1 + 52) = stack_top - 4 * of_nat nb" "0 < nb" "nb < 2 ^ 30"
      "regs s R1 + 52 \<notin> set (tcb_addrs (regs s R0)) \<union> set (slice_addrs (regs s R2) n)"
      "set (slice_addrs stack_top nb)
         \<inter> (set (tcb_addrs (regs s R0)) \<union> set (slice_addrs (regs s R2) n)) = {}"
  shows "\<exists>s1. swap_context s = Some s1 \<and>
    (\<forall>s2 m.
       (\<forall>x \<in> set (tcb_addrs (regs s R0)) \<union> set (slice_addrs (regs s R2) n). mem s2 x = mem s1 x)
       \<and> regs s2 R1 = regs s R0 \<and> regs s2 R3 = regs s R2
       \<and> aligned (regs s2 R0) \<and> aligned (regs s2 R2)
       \<and> regs s2 SP = stack_top - 4 * of_nat m \<and> 0 < m \<and> m < 2 ^ 30
       \<and> (set (tcb_addrs (regs s2 R0)) \<union> set (slice_addrs (regs s2 R2) m))
            \<inter> (set (tcb_addrs (regs s R0)) \<union> set (slice_addrs (regs s R2) n)) = {}
       \<and> set (tcb_addrs (regs s2 R0)) \<inter> set (slice_addrs (regs s2 R2) m) = {}
       \<and> set (tcb_addrs (regs s2 R0)) \<inter> set (slice_addrs stack_top m) = {}
       \<and> set (slice_addrs (regs s2 R2) m) \<inter> set (slice_addrs stack_top m) = {}
       \<longrightarrow>
       (\<exists>s3. swap_context s2 = Some s3
          \<and> regs s3 = regs s
          \<and> map (mem s3) (slice_addrs stack_top n) = map (mem s) (slice_addrs stack_top n)))"
proof -
  let ?A = "set (tcb_addrs (regs s R0)) \<union> set (slice_addrs (regs s R2) n)"
  from swap_out_saves [OF a depth sep]
  obtain t where t: "swap_out s = Some t"
    and t_tcb: "\<And>r. mem t (regs s R0 + tcb_off r) = regs s r"
    and t_slice: "map (mem t) (slice_addrs (regs s R2) n) = map (mem s) (slice_addrs stack_top n)"
    and t_frame: "\<And>x. x \<notin> ?A \<Longrightarrow> mem t x = mem s x"
    and t_r7: "regs t R7 = stack_top"
    and t_regs: "\<And>r. r \<notin> {R2, R4, R5, R6, R7} \<Longrightarrow> regs t r = regs s r"
    by blast
  have t_r1: "regs t R1 = regs s R1" and t_r3: "regs t R3 = regs s R3"
    by (simp_all add: t_regs)
  have "mem t (regs t R1 + 52) = stack_top - 4 * of_nat nb"
    using b(3,6) by (simp add: t_r1 t_frame)
  from swap_in_frame [OF _ _ t_r7 this b(4,5)] b(1,2)
  obtain s1 where s1: "swap_in t = Some s1"
    and s1_frame: "\<And>x. x \<notin> set (slice_addrs stack_top nb) \<Longrightarrow> mem s1 x = mem t x"
    by (auto simp: t_r1 t_r3)
  have first: "swap_context s = Some s1"
    by (simp add: swap_context_def t s1)
  have s1_A: "mem s1 x = mem t x" if "x \<in> ?A" for x
    using that b(7) by (intro s1_frame) blast
  have second: "\<exists>s3. swap_context s2 = Some s3
          \<and> regs s3 = regs s
          \<and> map (mem s3) (slice_addrs stack_top n) = map (mem s) (slice_addrs stack_top n)"
    if agree: "\<forall>x \<in> ?A. mem s2 x = mem s1 x"
      and args: "regs s2 R1 = regs s R0" "regs s2 R3 = regs s R2"
      and al2: "aligned (regs s2 R0)" "aligned (regs s2 R2)"
      and depth2: "regs s2 SP = stack_top - 4 * of_nat m" "0 < m" "m < 2 ^ 30"
      and away: "(set (tcb_addrs (regs s2 R0)) \<union> set (slice_addrs (regs s2 R2) m)) \<inter> ?A = {}"
      and sep2: "set (tcb_addrs (regs s2 R0)) \<inter> set (slice_addrs (regs s2 R2) m) = {}"
        "set (tcb_addrs (regs s2 R0)) \<inter> set (slice_addrs stack_top m) = {}"
        "set (slice_addrs (regs s2 R2) m) \<inter> set (slice_addrs stack_top m) = {}"
    for s2 m
  proof -
    from swap_out_saves [OF al2 depth2 sep2]
    obtain u where u: "swap_out s2 = Some u"
      and u_frame: "\<And>x. x \<notin> set (tcb_addrs (regs s2 R0)) \<union> set (slice_addrs (regs s2 R2) m)
                      \<Longrightarrow> mem u x = mem s2 x"
      and u_r7: "regs u R7 = stack_top"
      and u_regs: "\<And>r. r \<notin> {R2, R4, R5, R6, R7} \<Longrightarrow> regs u r = regs s2 r"
      by blast
    have u_r1: "regs u R1 = regs s R0" and u_r3: "regs u R3 = regs s R2"
      by (simp_all add: u_regs args)
    have u_A: "mem u x = mem t x" if "x \<in> ?A" for x
    proof -
      have "mem u x = mem s2 x" using that away by (intro u_frame) blast
      then show ?thesis using that agree s1_A by simp
    qed
    have u_tcb: "mem u (regs s R0 + tcb_off r) = regs s r" for r
      using u_A [of "regs s R0 + tcb_off r"] tcb_addrs_mem [of "regs s R0" r] by (simp add: t_tcb)
    have u_sp: "mem u (regs u R1 + 52) = stack_top - 4 * of_nat n"
      using u_tcb [of SP] depth(1) by (simp add: u_r1)
    have al: "aligned (regs u R1)" "aligned (regs u R3)"
      using a by (simp_all add: u_r1 u_r3)
    from swap_in_frame [OF al u_r7 u_sp depth(2,3)]
    obtain s3 where s3: "swap_in u = Some s3"
      and s3_frame: "\<And>x. x \<notin> set (slice_addrs stack_top n) \<Longrightarrow> mem s3 x = mem u x"
      and s3_sp: "regs s3 SP = mem u (regs u R1 + 52)"
      and s3_lr: "regs s3 LR = mem u (regs u R1 + 56)"
      and s3_regs: "\<And>r. r \<noteq> SP \<and> r \<noteq> LR \<Longrightarrow> regs s3 r = mem s3 (regs u R1 + tcb_off r)"
      and s3_slice: "set (slice_addrs (regs u R3) n) \<inter> set (slice_addrs stack_top n) = {} \<Longrightarrow>
         map (mem s3) (slice_addrs stack_top n) = map (mem u) (slice_addrs (regs u R3) n)"
      by blast
    have "regs s3 r = regs s r" for r
    proof (cases "r = SP \<or> r = LR")
      case True
      then show ?thesis
        using u_tcb [of SP] u_tcb [of LR] by (auto simp: s3_sp s3_lr u_r1)
    next
      case False
      have "regs s R0 + tcb_off r \<notin> set (slice_addrs stack_top n)"
        using sep(2) tcb_addrs_mem [of "regs s R0" r] by blast
      then have "mem s3 (regs s R0 + tcb_off r) = mem u (regs s R0 + tcb_off r)"
        by (rule s3_frame)
      then show ?thesis using False by (simp add: s3_regs u_r1 u_tcb)
    qed
    then have regs: "regs s3 = regs s" by (simp add: fun_eq_iff)
    have "map (mem s3) (slice_addrs stack_top n) = map (mem u) (slice_addrs (regs s R2) n)"
      using s3_slice sep(3) by (simp add: u_r3)
    also have "\<dots> = map (mem t) (slice_addrs (regs s R2) n)"
      by (intro map_cong refl u_A) simp
    finally have "map (mem s3) (slice_addrs stack_top n) = map (mem s) (slice_addrs stack_top n)"
      by (simp add: t_slice)
    then show ?thesis
      using regs by (simp add: swap_context_def u s3)
  qed
  show ?thesis
    using first second by blast
qed

lemma snapshot_unfolded:
  assumes "aligned (regs s R0)" and "aligned (regs s R1)"
    and "regs s SP = stack_top - 4 * of_nat n" and "0 < n" and "n < 2 ^ 30"
    and "set (tcb_addrs (regs s R0)) \<inter> set (slice_addrs (regs s R1) n) = {}"
    and "set (tcb_addrs (regs s R0)) \<inter> set (slice_addrs stack_top n) = {}"
    and "set (slice_addrs (regs s R1) n) \<inter> set (slice_addrs stack_top n) = {}"
    and "aligned (regs s R2)"
    and "set (tcb_addrs (regs s R0)) \<inter> set (slice_addrs (regs s R2) n) = {}"
    and "set (slice_addrs (regs s R2) n) \<inter> set (slice_addrs stack_top n) = {}"
  shows "\<exists>s' t. save_context s = Some s' \<and> swap_out s = Some t
    \<and> map (mem s') (tcb_addrs (regs s R0)) = map (mem t) (tcb_addrs (regs s R0))
    \<and> map (mem s') (slice_addrs (regs s R1) n) = map (mem t) (slice_addrs (regs s R2) n)
    \<and> (regs s R2 = regs s R1 \<longrightarrow> mem s' = mem t)
    \<and> (\<forall>r. mem s' (regs s R0 + tcb_off r) = regs s r)
    \<and> map (mem s') (slice_addrs (regs s R1) n) = map (mem s) (slice_addrs stack_top n)
    \<and> (\<forall>r. r \<noteq> R1 \<longrightarrow> regs s' r = regs s r)
    \<and> (\<forall>x. x \<notin> set (tcb_addrs (regs s R0)) \<union> set (slice_addrs (regs s R1) n) \<longrightarrow> mem s' x = mem s x)
    \<and> map (mem s') (slice_addrs stack_top n) = map (mem s) (slice_addrs stack_top n)"
proof -
  let ?W = "tcb_write (regs s R0) (regs s) (mem s)"
  let ?M = "copy_down n stack_top (regs s R1) ?W"
  have n: "n \<le> 2 ^ 30" using assms(5) by simp
  note run = save_context_run [OF assms(1-4) n]
  from swap_out_saves [OF assms(1) assms(9) assms(3-5) assms(10) assms(7) assms(11)]
  obtain t where t: "swap_out s = Some t"
    and t_tcb: "\<And>r. mem t (regs s R0 + tcb_off r) = regs s r"
    and t_slice: "map (mem t) (slice_addrs (regs s R2) n) = map (mem s) (slice_addrs stack_top n)"
    by blast
  have t_mem: "mem t = copy_down n stack_top (regs s R2) ?W"
    using t swap_out_run [OF assms(1) assms(9) assms(3,4) n] by auto
  have tcb: "?M (regs s R0 + tcb_off r) = regs s r" for r
  proof -
    have "regs s R0 + tcb_off r \<notin> set (slice_addrs (regs s R1) n)"
      using assms(6) tcb_addrs_mem [of "regs s R0" r] by blast
    then show ?thesis by (simp add: copy_down_frame tcb_write_at)
  qed
  have "map ?M (slice_addrs (regs s R1) n) = map ?W (slice_addrs stack_top n)"
    using n assms(8) by (intro copy_down_slice) auto
  also have "\<dots> = map (mem s) (slice_addrs stack_top n)"
    using assms(7) by (intro map_cong refl tcb_write_frame) auto
  finally have slice: "map ?M (slice_addrs (regs s R1) n) = map (mem s) (slice_addrs stack_top n)" .
  have frame: "?M x = mem s x"
    if "x \<notin> set (tcb_addrs (regs s R0)) \<union> set (slice_addrs (regs s R1) n)" for x
    using that by (simp add: copy_down_frame tcb_write_frame)
  have stack: "map ?M (slice_addrs stack_top n) = map (mem s) (slice_addrs stack_top n)"
    using assms(7,8) by (intro map_cong refl frame) auto
  have tcbs: "map ?M (tcb_addrs (regs s R0)) = map (mem t) (tcb_addrs (regs s R0))"
    by (simp add: tcb_addrs_def tcb t_tcb)
  have regs: "?M (regs s R0 + 28) = regs s R7" "?M (regs s R0 + 24) = regs s R6"
    "?M (regs s R0 + 20) = regs s R5" "?M (regs s R0 + 16) = regs s R4"
    using tcb [of R7] tcb [of R6] tcb [of R5] tcb [of R4] by simp_all
  show ?thesis
    using tcb slice frame stack tcbs t_slice regs
    by (simp add: run t t_mem)
qed

lemma tcb_write_other_reg:
  "x \<noteq> a + tcb_off R2 \<Longrightarrow> tcb_write a (rf(R2 := v)) m x = tcb_write a rf m x"
  by (simp add: tcb_write_def all_regs_def)

lemma snapshot_capture:
  assumes "aligned (regs s R0)" and "aligned (regs s R1)"
    and "regs s SP = stack_top - 4 * of_nat n" and "0 < n" and "n < 2 ^ 30"
    and "set (tcb_addrs (regs s R0)) \<inter> set (slice_addrs (regs s R1) n) = {}"
    and "set (tcb_addrs (regs s R0)) \<inter> set (slice_addrs stack_top n) = {}"
    and "set (slice_addrs (regs s R1) n) \<inter> set (slice_addrs stack_top n) = {}"
  shows "\<exists>s'. save_context s = Some s'
    \<and> (\<forall>r. mem s' (regs s R0 + tcb_off r) = regs s r)
    \<and> map (mem s') (slice_addrs (regs s R1) n) = map (mem s) (slice_addrs stack_top n)
    \<and> (\<forall>r. r \<noteq> R1 \<longrightarrow> regs s' r = regs s r)
    \<and> (\<forall>x. x \<notin> set (tcb_addrs (regs s R0)) \<union> set (slice_addrs (regs s R1) n) \<longrightarrow> mem s' x = mem s x)
    \<and> map (mem s') (slice_addrs stack_top n) = map (mem s) (slice_addrs stack_top n)
    \<and> (\<exists>t. swap_out (s\<lparr>regs := (regs s)(R2 := regs s R1)\<rparr>) = Some t
         \<and> (\<forall>x. x \<noteq> regs s R0 + tcb_off R2 \<longrightarrow> mem t x = mem s' x)
         \<and> mem t (regs s R0 + tcb_off R2) = regs s R1)"
proof -
  let ?W = "tcb_write (regs s R0) (regs s) (mem s)"
  let ?M = "copy_down n stack_top (regs s R1) ?W"
  let ?s2 = "s\<lparr>regs := (regs s)(R2 := regs s R1)\<rparr>"
  let ?W2 = "tcb_write (regs s R0) ((regs s)(R2 := regs s R1)) (mem s)"
  let ?M2 = "copy_down n stack_top (regs s R1) ?W2"
  have n: "n \<le> 2 ^ 30" using assms(5) by simp
  note run = save_context_run [OF assms(1-4) n]
  have tcb: "?M (regs s R0 + tcb_off r) = regs s r" for r
  proof -
    have "regs s R0 + tcb_off r \<notin> set (slice_addrs (regs s R1) n)"
      using assms(6) tcb_addrs_mem [of "regs s R0" r] by blast
    then show ?thesis by (simp add: copy_down_frame tcb_write_at)
  qed
  have "map ?M (slice_addrs (regs s R1) n) = map ?W (slice_addrs stack_top n)"
    using n assms(8) by (intro copy_down_slice) auto
  also have "\<dots> = map (mem s) (slice_addrs stack_top n)"
    using assms(7) by (intro map_cong refl tcb_write_frame) auto
  finally have slice: "map ?M (slice_addrs (regs s R1) n) = map (mem s) (slice_addrs stack_top n)" .
  have frame: "?M x = mem s x"
    if "x \<notin> set (tcb_addrs (regs s R0)) \<union> set (slice_addrs (regs s R1) n)" for x
    using that by (simp add: copy_down_frame tcb_write_frame)
  have stack: "map ?M (slice_addrs stack_top n) = map (mem s) (slice_addrs stack_top n)"
    using assms(7,8) by (intro map_cong refl frame) auto
  have regs: "?M (regs s R0 + 28) = regs s R7" "?M (regs s R0 + 24) = regs s R6"
    "?M (regs s R0 + 20) = regs s R5" "?M (regs s R0 + 16) = regs s R4"
    using tcb [of R7] tcb [of R6] tcb [of R5] tcb [of R4] by simp_all
  have run2: "swap_out ?s2 =
    Some (?s2\<lparr>regs := (regs ?s2)
              (R7 := stack_top, R6 := regs ?s2 SP, R4 := regs ?s2 SP,
               R2 := regs ?s2 R2 - 4 * of_nat n,
               R5 := copy_down n stack_top (regs ?s2 R2) (tcb_write (regs ?s2 R0) (regs ?s2) (mem ?s2))
                       (regs ?s2 R2 - 4 * of_nat n)),
            mem := copy_down n stack_top (regs ?s2 R2) (tcb_write (regs ?s2 R0) (regs ?s2) (mem ?s2)),
            zflag := True\<rparr>)"
    using assms(1-4) n by (intro swap_out_run) simp_all
  have "map ?M2 (slice_addrs (regs s R1) n) = map ?W2 (slice_addrs stack_top n)"
    using n assms(8) by (intro copy_down_slice) auto
  also have "\<dots> = map (mem s) (slice_addrs stack_top n)"
    using assms(7) by (intro map_cong refl tcb_write_frame) auto
  finally have "map ?M2 (slice_addrs (regs s R1) n) = map ?M (slice_addrs (regs s R1) n)"
    using slice by simp
  then have in_buf: "?M2 x = ?M x" if "x \<in> set (slice_addrs (regs s R1) n)" for x
    using that by (simp add: map_eq_conv)
  have same: "?M2 x = ?M x" if "x \<noteq> regs s R0 + tcb_off R2" for x
  proof (cases "x \<in> set (slice_addrs (regs s R1) n)")
    case True
    then show ?thesis by (rule in_buf)
  next
    case False
    then show ?thesis
      using that by (simp add: copy_down_frame tcb_write_other_reg)
  qed
  have "regs s R0 + tcb_off R2 \<notin> set (slice_addrs (regs s R1) n)"
    using assms(6) tcb_addrs_mem [of "regs s R0" R2] by blast
  then have "?M2 (regs s R0 + tcb_off R2) = ?W2 (regs s R0 + tcb_off R2)"
    by (rule copy_down_frame)
  also have "\<dots> = ((regs s)(R2 := regs s R1)) R2"
    by (rule tcb_write_at)
  finally have slot: "?M2 (regs s R0 + tcb_off R2) = regs s R1"
    by simp
  have cmp: "\<exists>t. swap_out ?s2 = Some t
         \<and> (\<forall>x. x \<noteq> regs s R0 + tcb_off R2 \<longrightarrow> mem t x = ?M x)
         \<and> mem t (regs s R0 + tcb_off R2) = regs s R1"
    using same slot by (simp add: run2)
  show ?thesis
    using tcb slice frame stack regs cmp
    by (simp add: run)
qed

subsection \<open>The example states\<close>

lemma slice_addrs_2: "slice_addrs p 2 = [p - 4, p - 8]"
proof -
  have "slice_addrs p (Suc (Suc 0)) = [p - 4, p - 8]" by simp
  then show ?thesis by (simp only: numeral_2_eq_2)
qed

lemmas ex_defs = fiber_a_def tcb_addrs_def all_regs_def stack_top_def slice_addrs_2 aligned_numeral

text \<open>
  The switch out of \<open>fiber_a_empty\<close>: the loop runs \<open>2 ^ 30\<close> rounds and leaves
  \<open>0x20003FFC\<close> in the cells of the record of A that held R4 and the stack pointer, and in
  the cell of the stack pointer of B.
\<close>

lemma empty_stack_out:
  "\<exists>t. swap_out fiber_a_empty = Some t
     \<and> regs t R1 = 0x20001100 \<and> regs t R3 = 0x20003000 \<and> regs t R7 = stack_top
     \<and> mem t 0x20001134 = 0x20003FFC \<and> mem t 0x20001010 = 0x20003FFC
     \<and> mem t 0x20001034 = 0x20003FFC"
proof -
  let ?W = "tcb_write 0x20001000 regs_a0 (\<lambda>x. 0x20003FFC)"
  let ?M = "copy_down (2 ^ 30) stack_top 0x20002000 ?W"
  have run: "swap_out fiber_a_empty =
    Some (fiber_a_empty\<lparr>regs := (regs fiber_a_empty)
              (R7 := stack_top, R6 := regs fiber_a_empty SP, R4 := regs fiber_a_empty SP,
               R2 := regs fiber_a_empty R2 - 4 * of_nat (2 ^ 30),
               R5 := copy_down (2 ^ 30) stack_top (regs fiber_a_empty R2)
                       (tcb_write (regs fiber_a_empty R0) (regs fiber_a_empty) (mem fiber_a_empty))
                       (regs fiber_a_empty R2 - 4 * of_nat (2 ^ 30))),
            mem := copy_down (2 ^ 30) stack_top (regs fiber_a_empty R2)
                     (tcb_write (regs fiber_a_empty R0) (regs fiber_a_empty) (mem fiber_a_empty)),
            zflag := True\<rparr>)"
    by (rule swap_out_run) (simp_all add: fiber_a_empty_def stack_top_def aligned_numeral)
  have w: "?W x = 0x20003FFC" if "x \<notin> set (tcb_addrs 0x20001000)" for x
    using that by (simp add: tcb_write_frame)
  have early: "?M (0x20002000 - 4 * of_nat (Suc k)) = ?W (stack_top - 4 * of_nat (Suc k))"
    if "k < 2048" for k
    using that by (intro copy_down_early) (simp_all add: stack_top_def)
  have m1: "?M 0x20001134 = 0x20003FFC"
    using early [of 946] w [of "0x20003134"] by (simp add: stack_top_def tcb_addrs_def all_regs_def)
  have m2: "?M 0x20001010 = 0x20003FFC"
    using early [of 1019] w [of "0x20003010"] by (simp add: stack_top_def tcb_addrs_def all_regs_def)
  have m3: "?M 0x20001034 = 0x20003FFC"
    using early [of 1010] w [of "0x20003034"] by (simp add: stack_top_def tcb_addrs_def all_regs_def)
  show ?thesis
    using m1 m2 m3 by (simp add: run) (simp add: fiber_a_empty_def)
qed

lemma empty_stack_round_trip:
  "\<exists>s1 s3. swap_context fiber_a_empty = Some s1
     \<and> swap_context \<lparr>regs = regs_b, mem = mem s1, zflag = False\<rparr> = Some s3
     \<and> regs s3 R4 = 0x20003FFC"
proof -
  from empty_stack_out obtain t where t: "swap_out fiber_a_empty = Some t"
    and t_regs: "regs t R1 = 0x20001100" "regs t R3 = 0x20003000" "regs t R7 = stack_top"
    and t_mem: "mem t 0x20001134 = 0x20003FFC" "mem t 0x20001010 = 0x20003FFC"
      "mem t 0x20001034 = 0x20003FFC"
    by blast
  define s1 where "s1 = \<lparr>regs = (\<lambda>r. if r = SP then mem t (regs t R1 + 52)
                     else if r = LR then mem t (regs t R1 + 56)
                     else copy_down 1 (regs t R3) stack_top (mem t) (regs t R1 + tcb_off r)),
          mem = copy_down 1 (regs t R3) stack_top (mem t),
          zflag = True\<rparr>"
  have in1: "swap_in t = Some s1"
    unfolding s1_def
    by (rule swap_in_run) (simp_all add: t_regs t_mem stack_top_def aligned_numeral)
  have first: "swap_context fiber_a_empty = Some s1"
    by (simp add: swap_context_def t in1)
  have s1_mem: "mem s1 0x20001010 = 0x20003FFC" "mem s1 0x20001034 = 0x20003FFC"
    by (simp_all add: s1_def t_regs t_mem stack_top_def)
  let ?s2 = "\<lparr>regs = regs_b, mem = mem s1, zflag = False\<rparr>"
  define u where "u = ?s2\<lparr>regs := (regs ?s2)
              (R7 := stack_top, R6 := regs ?s2 SP, R4 := regs ?s2 SP,
               R2 := regs ?s2 R2 - 4 * of_nat 1,
               R5 := copy_down 1 stack_top (regs ?s2 R2) (tcb_write (regs ?s2 R0) (regs ?s2) (mem ?s2))
                       (regs ?s2 R2 - 4 * of_nat 1)),
            mem := copy_down 1 stack_top (regs ?s2 R2) (tcb_write (regs ?s2 R0) (regs ?s2) (mem ?s2)),
            zflag := True\<rparr>"
  have out2: "swap_out ?s2 = Some u"
    unfolding u_def
    by (rule swap_out_run) (simp_all add: stack_top_def aligned_numeral)
  have u_regs: "regs u R1 = 0x20001000" "regs u R3 = 0x20002000" "regs u R7 = stack_top"
    by (simp_all add: u_def)
  have u_mem: "mem u 0x20001010 = 0x20003FFC" "mem u 0x20001034 = 0x20003FFC"
    by (simp_all add: u_def s1_mem stack_top_def tcb_write_def all_regs_def)
  define s3 where "s3 = \<lparr>regs = (\<lambda>r. if r = SP then mem u (regs u R1 + 52)
                     else if r = LR then mem u (regs u R1 + 56)
                     else copy_down 1 (regs u R3) stack_top (mem u) (regs u R1 + tcb_off r)),
          mem = copy_down 1 (regs u R3) stack_top (mem u),
          zflag = True\<rparr>"
  have in2: "swap_in u = Some s3"
    unfolding s3_def
    by (rule swap_in_run) (simp_all add: u_regs u_mem stack_top_def aligned_numeral)
  have second: "swap_context ?s2 = Some s3"
    by (simp add: swap_context_def out2 in2)
  have "regs s3 R4 = 0x20003FFC"
    by (simp add: s3_def u_regs u_mem stack_top_def)
  then show ?thesis
    using first second by blast
qed

subsection \<open>Round trip and snapshot\<close>

text \<open>
  C2. The claim: for every live stack depth from 0 up to the capacity of the buffer, a switch
  from A to B and a later switch from B to A give A its registers, its stack pointer and its
  stack contents back. With nothing on the stack of A (the stack pointer is the top of the
  stack) the loop \<^verbatim>\<open>store_stack\<close>, which tests after its body, does not stop after zero rounds:
  it runs until R4 has gone through the whole address space and overwrites the record of A.
  In the example, the layout conditions hold with depth 0, both switches return, and A gets
  \<open>0x20003FFC\<close> in R4 where it had 4.
\<close>

theorem swap_context_empty_stack_counterexample:
  "switch_layout fiber_a_empty 0 \<and> incoming_ready fiber_a_empty 0 1
   \<and> (\<exists>s1 s3. swap_context fiber_a_empty = Some s1
         \<and> switched_back fiber_a_empty 0 s1 \<lparr>regs = regs_b, mem = mem s1, zflag = False\<rparr> 1
         \<and> swap_context \<lparr>regs = regs_b, mem = mem s1, zflag = False\<rparr> = Some s3
         \<and> regs s3 R4 = 0x20003FFC \<and> regs fiber_a_empty R4 = 4
         \<and> regs s3 \<noteq> regs fiber_a_empty)"
proof -
  have lay: "switch_layout fiber_a_empty 0"
    by (simp add: switch_layout_def fiber_a_empty_def stack_top_def aligned_numeral)
  have inc: "incoming_ready fiber_a_empty 0 1"
    by (simp add: incoming_ready_def saved_area_def fiber_a_empty_def stack_top_def
        aligned_numeral tcb_addrs_def all_regs_def)
  from empty_stack_round_trip obtain s1 s3
    where s1: "swap_context fiber_a_empty = Some s1"
      and s3: "swap_context \<lparr>regs = regs_b, mem = mem s1, zflag = False\<rparr> = Some s3"
      and r4: "regs s3 R4 = 0x20003FFC"
    by blast
  have sb: "switched_back fiber_a_empty 0 s1 \<lparr>regs = regs_b, mem = mem s1, zflag = False\<rparr> 1"
    by (simp add: switched_back_def switch_layout_def saved_area_def fiber_a_empty_def
        stack_top_def aligned_numeral tcb_addrs_def all_regs_def)
  have old: "regs fiber_a_empty R4 = 4"
    by (simp add: fiber_a_empty_def)
  have "regs s3 \<noteq> regs fiber_a_empty"
  proof
    assume "regs s3 = regs fiber_a_empty"
    then have "regs s3 R4 = regs fiber_a_empty R4" by simp
    then show False using r4 old by simp
  qed
  then show ?thesis
    using lay inc s1 s3 sb r4 old by blast
qed

text \<open>
  C2, as amended. Let the live stack of A be \<open>n\<close> words deep with \<open>n\<close> at least 1, let
  the record of A, the \<open>n\<close> words of its buffer and its live stack be aligned and pairwise
  apart, and let B be ready to be switched in. Then the switch from A to B returns, and
  every later switch back to A, from a state in which the record and the buffer of A are
  as the first switch left them, returns with all of R0 to R12, the stack pointer and the
  link register as they were at the first call, and with the \<open>n\<close> words of the stack of A
  as they were.
\<close>

theorem swap_context_round_trip:
  assumes "switch_layout s n" and "0 < n" and "incoming_ready s n nb"
  shows "\<exists>s1. swap_context s = Some s1 \<and>
    (\<forall>s2 m. switched_back s n s1 s2 m \<longrightarrow>
       (\<exists>s3. swap_context s2 = Some s3
          \<and> regs s3 = regs s
          \<and> map (mem s3) (slice_addrs stack_top n) = map (mem s) (slice_addrs stack_top n)))"
proof -
  have "\<exists>s1. swap_context s = Some s1 \<and>
    (\<forall>s2 m.
       (\<forall>x \<in> set (tcb_addrs (regs s R0)) \<union> set (slice_addrs (regs s R2) n). mem s2 x = mem s1 x)
       \<and> regs s2 R1 = regs s R0 \<and> regs s2 R3 = regs s R2
       \<and> aligned (regs s2 R0) \<and> aligned (regs s2 R2)
       \<and> regs s2 SP = stack_top - 4 * of_nat m \<and> 0 < m \<and> m < 2 ^ 30
       \<and> (set (tcb_addrs (regs s2 R0)) \<union> set (slice_addrs (regs s2 R2) m))
            \<inter> (set (tcb_addrs (regs s R0)) \<union> set (slice_addrs (regs s R2) n)) = {}
       \<and> set (tcb_addrs (regs s2 R0)) \<inter> set (slice_addrs (regs s2 R2) m) = {}
       \<and> set (tcb_addrs (regs s2 R0)) \<inter> set (slice_addrs stack_top m) = {}
       \<and> set (slice_addrs (regs s2 R2) m) \<inter> set (slice_addrs stack_top m) = {}
       \<longrightarrow>
       (\<exists>s3. swap_context s2 = Some s3
          \<and> regs s3 = regs s
          \<and> map (mem s3) (slice_addrs stack_top n) = map (mem s) (slice_addrs stack_top n)))"
    using assms
    by (intro round_trip_unfolded [where nb = nb])
      (simp_all add: switch_layout_def incoming_ready_def saved_area_def)
  then obtain s1 where s1: "swap_context s = Some s1"
    and rt: "\<And>s2 m.
       (\<forall>x \<in> set (tcb_addrs (regs s R0)) \<union> set (slice_addrs (regs s R2) n). mem s2 x = mem s1 x)
       \<and> regs s2 R1 = regs s R0 \<and> regs s2 R3 = regs s R2
       \<and> aligned (regs s2 R0) \<and> aligned (regs s2 R2)
       \<and> regs s2 SP = stack_top - 4 * of_nat m \<and> 0 < m \<and> m < 2 ^ 30
       \<and> (set (tcb_addrs (regs s2 R0)) \<union> set (slice_addrs (regs s2 R2) m))
            \<inter> (set (tcb_addrs (regs s R0)) \<union> set (slice_addrs (regs s R2) n)) = {}
       \<and> set (tcb_addrs (regs s2 R0)) \<inter> set (slice_addrs (regs s2 R2) m) = {}
       \<and> set (tcb_addrs (regs s2 R0)) \<inter> set (slice_addrs stack_top m) = {}
       \<and> set (slice_addrs (regs s2 R2) m) \<inter> set (slice_addrs stack_top m) = {}
       \<Longrightarrow>
       (\<exists>s3. swap_context s2 = Some s3
          \<and> regs s3 = regs s
          \<and> map (mem s3) (slice_addrs stack_top n) = map (mem s) (slice_addrs stack_top n))"
    by blast
  have "\<exists>s3. swap_context s2 = Some s3
          \<and> regs s3 = regs s
          \<and> map (mem s3) (slice_addrs stack_top n) = map (mem s) (slice_addrs stack_top n)"
    if "switched_back s n s1 s2 m" for s2 m
    using that by (intro rt [where m = m]) (simp add: switched_back_def switch_layout_def saved_area_def)
  then show ?thesis
    using s1 by blast
qed

theorem swap_context_round_trip_witness:
  "switch_layout fiber_a 2 \<and> incoming_ready fiber_a 2 1
   \<and> (\<exists>s1 s3. swap_context fiber_a = Some s1
         \<and> switched_back fiber_a 2 s1 \<lparr>regs = regs_b, mem = mem s1, zflag = False\<rparr> 1
         \<and> swap_context \<lparr>regs = regs_b, mem = mem s1, zflag = False\<rparr> = Some s3
         \<and> regs s3 = regs_a
         \<and> map (mem s3) [0x20003FFC, 0x20003FF8] = [0xAA, 0xBB])"
proof -
  have lay: "switch_layout fiber_a 2"
    by (simp add: switch_layout_def ex_defs)
  have inc: "incoming_ready fiber_a 2 1"
    by (simp add: incoming_ready_def saved_area_def ex_defs)
  have pos: "0 < (2::nat)" by simp
  from swap_context_round_trip [OF lay pos inc]
  obtain s1 where s1: "swap_context fiber_a = Some s1"
    and rt: "\<And>s2 m. switched_back fiber_a 2 s1 s2 m \<Longrightarrow>
       (\<exists>s3. swap_context s2 = Some s3
          \<and> regs s3 = regs fiber_a
          \<and> map (mem s3) (slice_addrs stack_top 2) = map (mem fiber_a) (slice_addrs stack_top 2))"
    by blast
  have sb: "switched_back fiber_a 2 s1 \<lparr>regs = regs_b, mem = mem s1, zflag = False\<rparr> 1"
    by (simp add: switched_back_def switch_layout_def saved_area_def ex_defs)
  from rt [OF sb] obtain s3
    where "swap_context \<lparr>regs = regs_b, mem = mem s1, zflag = False\<rparr> = Some s3"
      and "regs s3 = regs fiber_a"
      and "map (mem s3) (slice_addrs stack_top 2) = map (mem fiber_a) (slice_addrs stack_top 2)"
    by blast
  then have fin: "swap_context \<lparr>regs = regs_b, mem = mem s1, zflag = False\<rparr> = Some s3
      \<and> regs s3 = regs_a \<and> map (mem s3) [0x20003FFC, 0x20003FF8] = [0xAA, 0xBB]"
    by (simp add: ex_defs)
  show ?thesis
    apply (intro conjI)
      apply (rule lay)
     apply (rule inc)
    apply (rule exI [of _ s1])
    apply (rule exI [of _ s3])
    apply (simp only: s1 sb fin simp_thms)
    done
qed

text \<open>
  C9. The claim: \<^verbatim>\<open>save_context\<close> saves what the outgoing side of the switch saves, loads no
  other context and returns to its caller with the live state unchanged, scratch registers
  apart. With nothing on the stack (the stack pointer is the top of the stack) the loop
  \<^verbatim>\<open>store_stack1\<close>, like \<^verbatim>\<open>store_stack\<close>, runs through the whole address space: in the example
  the call returns with \<open>0x20003FFC\<close> in R4, where the caller had 4, and the cell of the
  record that is to hold R4 holds \<open>0x20003FFC\<close> as well.
\<close>

theorem save_context_empty_stack_counterexample:
  "snapshot_layout fiber_a_empty 0
   \<and> (\<exists>s'. save_context fiber_a_empty = Some s'
         \<and> regs s' R4 = 0x20003FFC \<and> regs fiber_a_empty R4 = 4
         \<and> mem s' (regs fiber_a_empty R0 + tcb_off R4) = 0x20003FFC)"
proof -
  let ?W = "tcb_write 0x20001000 regs_a0 (\<lambda>x. 0x20003FFC)"
  let ?M = "copy_down (2 ^ 30) stack_top 0x20001100 ?W"
  have lay: "snapshot_layout fiber_a_empty 0"
    by (simp add: snapshot_layout_def fiber_a_empty_def stack_top_def aligned_numeral)
  have run: "save_context fiber_a_empty =
    Some (fiber_a_empty\<lparr>regs := (regs fiber_a_empty)
              (R1 := regs fiber_a_empty R1 - 4 * of_nat (2 ^ 30),
               R7 := copy_down (2 ^ 30) stack_top (regs fiber_a_empty R1)
                       (tcb_write (regs fiber_a_empty R0) (regs fiber_a_empty) (mem fiber_a_empty))
                       (regs fiber_a_empty R0 + 28),
               R6 := copy_down (2 ^ 30) stack_top (regs fiber_a_empty R1)
                       (tcb_write (regs fiber_a_empty R0) (regs fiber_a_empty) (mem fiber_a_empty))
                       (regs fiber_a_empty R0 + 24),
               R5 := copy_down (2 ^ 30) stack_top (regs fiber_a_empty R1)
                       (tcb_write (regs fiber_a_empty R0) (regs fiber_a_empty) (mem fiber_a_empty))
                       (regs fiber_a_empty R0 + 20),
               R4 := copy_down (2 ^ 30) stack_top (regs fiber_a_empty R1)
                       (tcb_write (regs fiber_a_empty R0) (regs fiber_a_empty) (mem fiber_a_empty))
                       (regs fiber_a_empty R0 + 16)),
            mem := copy_down (2 ^ 30) stack_top (regs fiber_a_empty R1)
                     (tcb_write (regs fiber_a_empty R0) (regs fiber_a_empty) (mem fiber_a_empty)),
            zflag := True\<rparr>)"
    by (rule save_context_run) (simp_all add: fiber_a_empty_def stack_top_def aligned_numeral)
  have w: "?W x = 0x20003FFC" if "x \<notin> set (tcb_addrs 0x20001000)" for x
    using that by (simp add: tcb_write_frame)
  have early: "?M (0x20001100 - 4 * of_nat (Suc k)) = ?W (stack_top - 4 * of_nat (Suc k))"
    if "k < 3008" for k
    using that by (intro copy_down_early) (simp_all add: stack_top_def)
  have m: "?M 0x20001010 = 0x20003FFC"
    using early [of 59] w [of "0x20003F10"] by (simp add: stack_top_def tcb_addrs_def all_regs_def)
  show ?thesis
    using lay m by (simp add: run) (simp add: fiber_a_empty_def)
qed

text \<open>
  C9, as amended. \<^verbatim>\<open>save_context\<close>, called with the record in R0 and the buffer in R1, on a
  live stack of \<open>n\<close> words with \<open>n\<close> at least 1, record and buffer aligned, and the record,
  the \<open>n\<close> words of the buffer and the live stack pairwise apart, returns and
  \<^item> leaves the registers, the stack pointer and the link register (the return address)
    in the 15 cells of the record, and the words of the live stack in the buffer;
  \<^item> loads no other context: every register but the scratch register R1, the stack
    pointer and the link register included, is as it was at the call;
  \<^item> writes nothing but the record and the buffer, so the live stack is as it was;
  \<^item> leaves the memory that the outgoing side of \<^verbatim>\<open>swap_context\<close> leaves when it is called
    in the same state with that buffer where it expects it, in R2; the one cell that
    differs is the cell of the record for R2, which then holds the buffer address;
  \<^item> and when R2 too names an aligned buffer apart from record and stack, leaves in the
    record and in its buffer what the outgoing side of \<^verbatim>\<open>swap_context\<close> leaves in the record
    and in the buffer of R2 from the very same state; the two memories are equal when R1
    and R2 name the same buffer.
\<close>

theorem save_context_snapshot:
  assumes "snapshot_layout s n" and "0 < n"
  shows "\<exists>s'. save_context s = Some s'
    \<and> (\<forall>r. mem s' (regs s R0 + tcb_off r) = regs s r)
    \<and> map (mem s') (slice_addrs (regs s R1) n) = map (mem s) (slice_addrs stack_top n)
    \<and> (\<forall>r. r \<noteq> R1 \<longrightarrow> regs s' r = regs s r)
    \<and> (\<forall>x. x \<notin> set (tcb_addrs (regs s R0)) \<union> set (slice_addrs (regs s R1) n) \<longrightarrow> mem s' x = mem s x)
    \<and> map (mem s') (slice_addrs stack_top n) = map (mem s) (slice_addrs stack_top n)
    \<and> (\<exists>t. swap_out (s\<lparr>regs := (regs s)(R2 := regs s R1)\<rparr>) = Some t
         \<and> (\<forall>x. x \<noteq> regs s R0 + tcb_off R2 \<longrightarrow> mem t x = mem s' x)
         \<and> mem t (regs s R0 + tcb_off R2) = regs s R1)
    \<and> (switch_layout s n \<longrightarrow>
         (\<exists>t. swap_out s = Some t
            \<and> map (mem t) (tcb_addrs (regs s R0)) = map (mem s') (tcb_addrs (regs s R0))
            \<and> map (mem t) (slice_addrs (regs s R2) n) = map (mem s') (slice_addrs (regs s R1) n)
            \<and> (regs s R2 = regs s R1 \<longrightarrow> mem t = mem s')))"
proof -
  from assms have "\<exists>s'. save_context s = Some s'
    \<and> (\<forall>r. mem s' (regs s R0 + tcb_off r) = regs s r)
    \<and> map (mem s') (slice_addrs (regs s R1) n) = map (mem s) (slice_addrs stack_top n)
    \<and> (\<forall>r. r \<noteq> R1 \<longrightarrow> regs s' r = regs s r)
    \<and> (\<forall>x. x \<notin> set (tcb_addrs (regs s R0)) \<union> set (slice_addrs (regs s R1) n) \<longrightarrow> mem s' x = mem s x)
    \<and> map (mem s') (slice_addrs stack_top n) = map (mem s) (slice_addrs stack_top n)
    \<and> (\<exists>t. swap_out (s\<lparr>regs := (regs s)(R2 := regs s R1)\<rparr>) = Some t
         \<and> (\<forall>x. x \<noteq> regs s R0 + tcb_off R2 \<longrightarrow> mem t x = mem s' x)
         \<and> mem t (regs s R0 + tcb_off R2) = regs s R1)"
    by (intro snapshot_capture) (simp_all add: snapshot_layout_def)
  then obtain s' where s': "save_context s = Some s'"
    and main: "(\<forall>r. mem s' (regs s R0 + tcb_off r) = regs s r)
    \<and> map (mem s') (slice_addrs (regs s R1) n) = map (mem s) (slice_addrs stack_top n)
    \<and> (\<forall>r. r \<noteq> R1 \<longrightarrow> regs s' r = regs s r)
    \<and> (\<forall>x. x \<notin> set (tcb_addrs (regs s R0)) \<union> set (slice_addrs (regs s R1) n) \<longrightarrow> mem s' x = mem s x)
    \<and> map (mem s') (slice_addrs stack_top n) = map (mem s) (slice_addrs stack_top n)
    \<and> (\<exists>t. swap_out (s\<lparr>regs := (regs s)(R2 := regs s R1)\<rparr>) = Some t
         \<and> (\<forall>x. x \<noteq> regs s R0 + tcb_off R2 \<longrightarrow> mem t x = mem s' x)
         \<and> mem t (regs s R0 + tcb_off R2) = regs s R1)"
    by blast
  have "\<exists>t. swap_out s = Some t
            \<and> map (mem t) (tcb_addrs (regs s R0)) = map (mem s') (tcb_addrs (regs s R0))
            \<and> map (mem t) (slice_addrs (regs s R2) n) = map (mem s') (slice_addrs (regs s R1) n)
            \<and> (regs s R2 = regs s R1 \<longrightarrow> mem t = mem s')"
    if "switch_layout s n"
  proof -
    from assms that have "\<exists>u t. save_context s = Some u \<and> swap_out s = Some t
      \<and> map (mem u) (tcb_addrs (regs s R0)) = map (mem t) (tcb_addrs (regs s R0))
      \<and> map (mem u) (slice_addrs (regs s R1) n) = map (mem t) (slice_addrs (regs s R2) n)
      \<and> (regs s R2 = regs s R1 \<longrightarrow> mem u = mem t)
      \<and> (\<forall>r. mem u (regs s R0 + tcb_off r) = regs s r)
      \<and> map (mem u) (slice_addrs (regs s R1) n) = map (mem s) (slice_addrs stack_top n)
      \<and> (\<forall>r. r \<noteq> R1 \<longrightarrow> regs u r = regs s r)
      \<and> (\<forall>x. x \<notin> set (tcb_addrs (regs s R0)) \<union> set (slice_addrs (regs s R1) n) \<longrightarrow> mem u x = mem s x)
      \<and> map (mem u) (slice_addrs stack_top n) = map (mem s) (slice_addrs stack_top n)"
      by (intro snapshot_unfolded) (simp_all add: snapshot_layout_def switch_layout_def)
    then obtain u t where u: "save_context s = Some u" and t: "swap_out s = Some t"
      and cmp: "map (mem u) (tcb_addrs (regs s R0)) = map (mem t) (tcb_addrs (regs s R0))"
        "map (mem u) (slice_addrs (regs s R1) n) = map (mem t) (slice_addrs (regs s R2) n)"
        "regs s R2 = regs s R1 \<longrightarrow> mem u = mem t"
      by blast
    have "u = s'" using u s' by simp
    then show ?thesis using t cmp by auto
  qed
  then show ?thesis
    using s' main by blast
qed

theorem save_context_snapshot_witness:
  "snapshot_layout fiber_a 2 \<and> switch_layout fiber_a 2
   \<and> (\<exists>s' t. save_context fiber_a = Some s' \<and> swap_out fiber_a = Some t
         \<and> map (mem s') (tcb_addrs 0x20001000) = map (mem t) (tcb_addrs 0x20001000)
         \<and> map (mem s') [0x200010FC, 0x200010F8] = [0xAA, 0xBB]
         \<and> map (mem t) [0x20001FFC, 0x20001FF8] = [0xAA, 0xBB]
         \<and> mem s' 0x20001010 = 4 \<and> mem s' 0x20001034 = 0x20003FF8 \<and> mem s' 0x20001038 = 0x1001
         \<and> regs s' R0 = 0x20001000 \<and> regs s' R4 = 4 \<and> regs s' SP = 0x20003FF8
         \<and> regs s' LR = 0x1001
         \<and> map (mem s') [0x20003FFC, 0x20003FF8] = [0xAA, 0xBB])
   \<and> snapshot_layout (fiber_a\<lparr>regs := regs_a(R2 := 1)\<rparr>) 2
   \<and> \<not> switch_layout (fiber_a\<lparr>regs := regs_a(R2 := 1)\<rparr>) 2
   \<and> (\<exists>s'. save_context (fiber_a\<lparr>regs := regs_a(R2 := 1)\<rparr>) = Some s'
         \<and> map (mem s') [0x200010FC, 0x200010F8] = [0xAA, 0xBB]
         \<and> mem s' 0x20001008 = 1 \<and> mem s' 0x20001010 = 4
         \<and> regs s' R2 = 1 \<and> regs s' R4 = 4 \<and> regs s' SP = 0x20003FF8 \<and> regs s' LR = 0x1001
         \<and> map (mem s') [0x20003FFC, 0x20003FF8] = [0xAA, 0xBB])"
proof -
  let ?b = "fiber_a\<lparr>regs := regs_a(R2 := 1)\<rparr>"
  have snap: "snapshot_layout fiber_a 2"
    by (simp add: snapshot_layout_def ex_defs)
  have lay: "switch_layout fiber_a 2"
    by (simp add: switch_layout_def ex_defs)
  have pos: "0 < (2::nat)" by simp
  from save_context_snapshot [OF snap pos]
  obtain s' where run: "save_context fiber_a = Some s'"
    and tcb: "\<And>r. mem s' (regs fiber_a R0 + tcb_off r) = regs fiber_a r"
    and buf: "map (mem s') (slice_addrs (regs fiber_a R1) 2) = map (mem fiber_a) (slice_addrs stack_top 2)"
    and keep: "\<And>r. r \<noteq> R1 \<Longrightarrow> regs s' r = regs fiber_a r"
    and stack: "map (mem s') (slice_addrs stack_top 2) = map (mem fiber_a) (slice_addrs stack_top 2)"
    and cmp: "switch_layout fiber_a 2 \<Longrightarrow>
         (\<exists>t. swap_out fiber_a = Some t
            \<and> map (mem t) (tcb_addrs (regs fiber_a R0)) = map (mem s') (tcb_addrs (regs fiber_a R0))
            \<and> map (mem t) (slice_addrs (regs fiber_a R2) 2) = map (mem s') (slice_addrs (regs fiber_a R1) 2)
            \<and> (regs fiber_a R2 = regs fiber_a R1 \<longrightarrow> mem t = mem s'))"
    by blast
  from cmp [OF lay] obtain t where t: "swap_out fiber_a = Some t"
    and same: "map (mem t) (tcb_addrs (regs fiber_a R0)) = map (mem s') (tcb_addrs (regs fiber_a R0))"
      "map (mem t) (slice_addrs (regs fiber_a R2) 2) = map (mem s') (slice_addrs (regs fiber_a R1) 2)"
    by blast
  have a: "map (mem s') (tcb_addrs 0x20001000) = map (mem t) (tcb_addrs 0x20001000)"
    using same(1) by (simp add: fiber_a_def)
  have b: "map (mem s') [0x200010FC, 0x200010F8] = [0xAA, 0xBB]"
    using buf by (simp add: ex_defs)
  have c: "map (mem t) [0x20001FFC, 0x20001FF8] = [0xAA, 0xBB]"
    using same(2) buf by (simp add: ex_defs)
  have d: "mem s' 0x20001010 = 4" "mem s' 0x20001034 = 0x20003FF8" "mem s' 0x20001038 = 0x1001"
    using tcb [of R4] tcb [of SP] tcb [of LR] by (simp_all add: fiber_a_def)
  have e: "regs s' R0 = 0x20001000" "regs s' R4 = 4" "regs s' SP = 0x20003FF8" "regs s' LR = 0x1001"
    using keep [of R0] keep [of R4] keep [of SP] keep [of LR] by (simp_all add: fiber_a_def)
  have f: "map (mem s') [0x20003FFC, 0x20003FF8] = [0xAA, 0xBB]"
    using stack by (simp add: ex_defs)
  have snap2: "snapshot_layout ?b 2"
    by (simp add: snapshot_layout_def ex_defs)
  have nolay: "\<not> switch_layout ?b 2"
    by (simp add: switch_layout_def aligned_def fiber_a_def)
  from save_context_snapshot [OF snap2 pos]
  obtain u where run2: "save_context ?b = Some u"
    and tcb2: "\<And>r. mem u (regs ?b R0 + tcb_off r) = regs ?b r"
    and buf2: "map (mem u) (slice_addrs (regs ?b R1) 2) = map (mem ?b) (slice_addrs stack_top 2)"
    and keep2: "\<And>r. r \<noteq> R1 \<Longrightarrow> regs u r = regs ?b r"
    and stack2: "map (mem u) (slice_addrs stack_top 2) = map (mem ?b) (slice_addrs stack_top 2)"
    by blast
  have g: "map (mem u) [0x200010FC, 0x200010F8] = [0xAA, 0xBB]"
    using buf2 by (simp add: ex_defs)
  have h: "mem u 0x20001008 = 1" "mem u 0x20001010 = 4"
    using tcb2 [of R2] tcb2 [of R4] by (simp_all add: fiber_a_def)
  have i: "regs u R2 = 1" "regs u R4 = 4" "regs u SP = 0x20003FF8" "regs u LR = 0x1001"
    using keep2 [of R2] keep2 [of R4] keep2 [of SP] keep2 [of LR] by (simp_all add: fiber_a_def)
  have j: "map (mem u) [0x20003FFC, 0x20003FF8] = [0xAA, 0xBB]"
    using stack2 by (simp add: ex_defs)
  show ?thesis
    apply (intro conjI)
        apply (rule snap)
       apply (rule lay)
      apply (rule exI [of _ s'])
      apply (rule exI [of _ t])
      apply (simp only: run t a b c d e f simp_thms)
     apply (rule snap2)
    apply (rule nolay)
    apply (rule exI [of _ u])
    apply (simp only: run2 g h i j simp_thms)
    done
qed

end
